theory Spec2Isabelle
  imports Complex_Main "HOL-Library.Word" "HOL-Library.AList"
begin

section \<open>The DLE frame codec (firehose\_client.py, class DLEProtocol)\<close>

text \<open>
  A \<^verbatim>\<open>bytearray\<close> is a list of 8-bit words. The three protocol constants are the
  class attributes of \<^verbatim>\<open>DLEProtocol\<close>.
\<close>

type_synonym byte = "8 word"

definition DLE :: byte where "DLE = 0x10"
definition STX :: byte where "STX = 0x02"
definition ETX :: byte where "ETX = 0x03"

text \<open>\<^verbatim>\<open>unstuff_data\<close> only converts the bytearray to bytes.\<close>

definition unstuff_data :: "byte list \<Rightarrow> byte list" where
  "unstuff_data data = data"

text \<open>
  The inner \<^verbatim>\<open>while j < len(buffer) - 1\<close> loop of \<^verbatim>\<open>extract_frames\<close>, started
  after a start marker. The Python test \<^verbatim>\<open>j < len(buffer) - 1\<close> is on integers, so it
  is written \<open>j + 1 < length buffer\<close> on naturals. The result is \<open>Some (frame_data, i)\<close>
  when the loop leaves through \<^verbatim>\<open>break\<close> (end of frame found, \<open>i = j + 2\<close>), and
  \<open>None\<close> when the loop condition fails, which is the \<^verbatim>\<open>else\<close> branch of the
  \<^verbatim>\<open>while\<close>.
\<close>

function inner_loop :: "byte list \<Rightarrow> nat \<Rightarrow> byte list \<Rightarrow> (byte list \<times> nat) option" where
  "inner_loop buffer j frame_data =
     (if j + 1 < length buffer then
        (if buffer ! j = DLE then
           (if buffer ! (j + 1) = ETX then Some (frame_data, j + 2)
            else if buffer ! (j + 1) = DLE then inner_loop buffer (j + 2) (frame_data @ [DLE])
            else inner_loop buffer (j + 1) (frame_data @ [buffer ! j]))
         else inner_loop buffer (j + 1) (frame_data @ [buffer ! j]))
      else None)"
  by pat_completeness auto
termination
  by (relation "measure (\<lambda>(buffer, j, frame_data). length buffer - j)") auto

declare inner_loop.simps [simp del]

lemma inner_loop_bounds:
  "inner_loop buffer j frame_data = Some (fd, i) \<Longrightarrow> j + 2 \<le> i \<and> i \<le> length buffer"
proof (induction buffer j frame_data rule: inner_loop.induct)
  case (1 buffer j frame_data)
  show ?case
  proof (cases "j + 1 < length buffer")
    case False
    with "1.prems" show ?thesis by (simp add: inner_loop.simps [of buffer j])
  next
    case inb: True
    show ?thesis
    proof (cases "buffer ! j = DLE")
      case False
      with inb "1.prems" have "inner_loop buffer (j + 1) (frame_data @ [buffer ! j]) = Some (fd, i)"
        by (simp add: inner_loop.simps [of buffer j])
      with "1.IH"(3)[OF inb False] show ?thesis by simp
    next
      case d: True
      show ?thesis
      proof (cases "buffer ! (j + 1) = ETX")
        case True
        with inb d "1.prems" show ?thesis by (auto simp: inner_loop.simps [of buffer j])
      next
        case ne: False
        show ?thesis
        proof (cases "buffer ! (j + 1) = DLE")
          case True
          with inb d ne "1.prems" have "inner_loop buffer (j + 2) (frame_data @ [DLE]) = Some (fd, i)"
            by (simp add: inner_loop.simps [of buffer j])
          with "1.IH"(1)[OF inb d ne True] show ?thesis by simp
        next
          case False
          with inb d ne "1.prems"
          have "inner_loop buffer (j + 1) (frame_data @ [buffer ! j]) = Some (fd, i)"
            by (simp add: inner_loop.simps [of buffer j])
          with "1.IH"(2)[OF inb d ne False] show ?thesis by simp
        qed
      qed
    qed
  qed
qed

text \<open>
  The outer \<^verbatim>\<open>while i < len(buffer) - 1\<close> loop. When the inner loop ends without a
  terminator, \<^verbatim>\<open>buffer[i:]\<close> becomes the remaining buffer and the outer loop is left;
  when the outer condition fails, the remaining buffer is still the empty bytearray it
  was initialised to.
\<close>

function outer_loop :: "byte list \<Rightarrow> nat \<Rightarrow> byte list list \<Rightarrow> byte list list \<times> byte list" where
  "outer_loop buffer i frames =
     (if i + 1 < length buffer then
        (if buffer ! i = DLE \<and> buffer ! (i + 1) = STX then
           (case inner_loop buffer (i + 2) [] of
              Some (frame_data, i') \<Rightarrow> outer_loop buffer i' (frames @ [unstuff_data frame_data])
            | None \<Rightarrow> (frames, drop i buffer))
         else outer_loop buffer (i + 1) frames)
      else (frames, []))"
  by pat_completeness auto
termination
proof (relation "measure (\<lambda>(buffer, i, frames). length buffer - i)")
  show "wf (measure (\<lambda>(buffer, i, frames). length buffer - i))" by simp
next
  fix buffer :: "byte list" and i :: nat and frames :: "byte list list"
    and x2 :: "byte list \<times> nat" and frame_data :: "byte list" and i' :: nat
  assume inb: "i + 1 < length buffer"
    and "inner_loop buffer (i + 2) [] = Some x2" and "(frame_data, i') = x2"
  then have "inner_loop buffer (i + 2) [] = Some (frame_data, i')" by simp
  from inner_loop_bounds[OF this] inb have "length buffer - i' < length buffer - i"
    by linarith
  then show "((buffer, i', frames @ [unstuff_data frame_data]), (buffer, i, frames))
          \<in> measure (\<lambda>(buffer, i, frames). length buffer - i)"
    by simp
next
  fix buffer :: "byte list" and i :: nat and frames :: "byte list list"
  assume "i + 1 < length buffer"
  then show "((buffer, i + 1, frames), (buffer, i, frames))
          \<in> measure (\<lambda>(buffer, i, frames). length buffer - i)"
    by simp
qed

declare outer_loop.simps [simp del]

definition extract_frames :: "byte list \<Rightarrow> byte list list \<times> byte list" where
  "extract_frames buffer = outer_loop buffer 0 []"

section \<open>The codec as a function of the unread input\<close>

text \<open>
  For the proofs the two loops are also written on the unread part of the buffer,
  \<^verbatim>\<open>buffer[j:]\<close> and \<^verbatim>\<open>buffer[i:]\<close>. \<open>read_frame\<close> is the inner loop: it
  returns the payload and the input left after the terminator. \<open>scan\<close> is the outer
  loop. Lemmas \<open>inner_loop_read_frame\<close> and \<open>outer_loop_scan\<close> show that they compute
  what the index loops compute.
\<close>

fun read_frame :: "byte list \<Rightarrow> byte list \<Rightarrow> (byte list \<times> byte list) option" where
  "read_frame (b # c # rest) frame_data =
     (if b = DLE then
        (if c = ETX then Some (frame_data, rest)
         else if c = DLE then read_frame rest (frame_data @ [DLE])
         else read_frame (c # rest) (frame_data @ [b]))
      else read_frame (c # rest) (frame_data @ [b]))"
| "read_frame [b] frame_data = None"
| "read_frame [] frame_data = None"

lemma read_frame_suffix:
  "read_frame xs fd = Some (fd', r) \<Longrightarrow> \<exists>pre. xs = pre @ r \<and> 2 \<le> length pre"
proof (induction xs fd rule: read_frame.induct)
  case (1 b c rest frame_data)
  show ?case
  proof (cases "b = DLE \<and> c = ETX")
    case True
    with "1.prems" have "b # c # rest = [b, c] @ r" by simp
    then show ?thesis by (intro exI [of _ "[b, c]"]) simp
  next
    case nend: False
    show ?thesis
    proof (cases "b = DLE \<and> c = DLE")
      case True
      with nend "1.prems" "1.IH"(1) obtain pre where "rest = pre @ r" by auto
      then have "b # c # rest = (b # c # pre) @ r" by simp
      then show ?thesis by (intro exI [of _ "b # c # pre"]) simp
    next
      case False
      with nend "1.prems" "1.IH"(2,3) obtain pre where "c # rest = pre @ r" "2 \<le> length pre"
        by (auto split: if_splits)
      then have "b # c # rest = (b # pre) @ r" by simp
      with \<open>2 \<le> length pre\<close> show ?thesis by (intro exI [of _ "b # pre"]) simp
    qed
  qed
qed simp_all

lemma read_frame_length:
  "read_frame xs fd = Some (fd', rest) \<Longrightarrow> length rest + 2 \<le> length xs"
  by (drule read_frame_suffix) auto

lemma inner_loop_read_frame:
  "inner_loop buffer j fd =
     map_option (\<lambda>(fd', rest). (fd', length buffer - length rest)) (read_frame (drop j buffer) fd)"
proof (induction buffer j fd rule: inner_loop.induct)
  case (1 buffer j frame_data)
  show ?case
  proof (cases "j + 1 < length buffer")
    case False
    then have "drop j buffer = [] \<or> (\<exists>b. drop j buffer = [b])"
      by (cases "drop j buffer"; cases "tl (drop j buffer)") (auto simp: drop_Suc[symmetric] dest!: arg_cong[where f=length])
    with False show ?thesis by (auto simp: inner_loop.simps [of buffer j])
  next
    case inb: True
    then have dr: "drop j buffer = buffer ! j # buffer ! (j + 1) # drop (j + 2) buffer"
      by (simp add: Cons_nth_drop_Suc)
    have dr1: "drop (j + 1) buffer = buffer ! (j + 1) # drop (j + 2) buffer"
      using inb by (simp add: Cons_nth_drop_Suc)
    show ?thesis
    proof (cases "buffer ! j = DLE")
      case False
      with inb "1.IH"(3) dr dr1 show ?thesis
        by (simp add: inner_loop.simps [of buffer j])
    next
      case d: True
      show ?thesis
      proof (cases "buffer ! (j + 1) = ETX")
        case True
        with inb d dr show ?thesis by (simp add: inner_loop.simps [of buffer j]) 
      next
        case ne: False
        show ?thesis
        proof (cases "buffer ! (j + 1) = DLE")
          case True
          with inb d ne dr "1.IH"(1) show ?thesis by (simp add: inner_loop.simps [of buffer j])
        next
          case False
          with inb d ne dr dr1 "1.IH"(2) show ?thesis by (simp add: inner_loop.simps [of buffer j])
        qed
      qed
    qed
  qed
qed


function scan :: "byte list \<Rightarrow> byte list list \<times> byte list" where
  "scan (b # c # rest) =
     (if b = DLE \<and> c = STX then
        (case read_frame rest [] of
           Some (frame_data, rest') \<Rightarrow>
             (case scan rest' of (fs, r) \<Rightarrow> (unstuff_data frame_data # fs, r))
         | None \<Rightarrow> ([], b # c # rest))
      else scan (c # rest))"
| "scan [b] = ([], [])"
| "scan [] = ([], [])"
  by pat_completeness auto
termination
proof (relation "measure length")
  fix b c :: byte and rest :: "byte list" and x2 :: "byte list \<times> byte list"
    and frame_data rest' :: "byte list"
  assume "read_frame rest [] = Some x2" and "(frame_data, rest') = x2"
  then have "read_frame rest [] = Some (frame_data, rest')" by simp
  from read_frame_length [OF this] show "(rest', b # c # rest) \<in> measure length" by simp
qed simp_all

declare scan.simps(1) [simp del]

lemma drop_suffix: "xs = pre @ r \<Longrightarrow> drop (length xs - length r) xs = r"
  by simp

lemma outer_loop_scan:
  "outer_loop buffer i frames = (case scan (drop i buffer) of (fs, r) \<Rightarrow> (frames @ fs, r))"
proof (induction buffer i frames rule: outer_loop.induct)
  case (1 buffer i frames)
  show ?case
  proof (cases "i + 1 < length buffer")
    case False
    then have "drop i buffer = [] \<or> (\<exists>b. drop i buffer = [b])"
      by (cases "drop i buffer"; cases "tl (drop i buffer)") (auto simp: drop_Suc[symmetric] dest!: arg_cong[where f=length])
    with False show ?thesis by (auto simp: outer_loop.simps [of buffer i])
  next
    case inb: True
    then have dr: "drop i buffer = buffer ! i # buffer ! (i + 1) # drop (i + 2) buffer"
      by (simp add: Cons_nth_drop_Suc)
    have dr1: "drop (i + 1) buffer = buffer ! (i + 1) # drop (i + 2) buffer"
      using inb by (simp add: Cons_nth_drop_Suc)
    show ?thesis
    proof (cases "buffer ! i = DLE \<and> buffer ! (i + 1) = STX")
      case False
      have l: "outer_loop buffer i frames = outer_loop buffer (i + 1) frames"
        by (subst outer_loop.simps) (use inb False in auto)
      have "scan (buffer ! i # buffer ! (i + 1) # drop (i + 2) buffer) =
              scan (buffer ! (i + 1) # drop (i + 2) buffer)"
        by (subst scan.simps(1)) (use False in auto)
      then have "scan (drop i buffer) = scan (drop (i + 1) buffer)"
        by (simp only: dr dr1)
      with l "1.IH"(2) [OF inb False] show ?thesis by simp
    next
      case start: True
      show ?thesis
      proof (cases "read_frame (drop (i + 2) buffer) []")
        case None
        with inb start dr show ?thesis
          by (simp add: outer_loop.simps [of buffer i] scan.simps(1) inner_loop_read_frame)
      next
        case (Some x2)
        obtain fd rest' where x2: "x2 = (fd, rest')" by (cases x2)
        define i' where "i' = length buffer - length rest'"
        from Some x2 have il: "inner_loop buffer (i + 2) [] = Some (fd, i')"
          by (simp add: inner_loop_read_frame i'_def)
        from Some x2 obtain pre where "drop (i + 2) buffer = pre @ rest'"
          using read_frame_suffix by blast
        then have "buffer = (take (i + 2) buffer @ pre) @ rest'"
          by (metis append_assoc append_take_drop_id)
        from drop_suffix [OF this] have dr': "drop i' buffer = rest'"
          by (simp add: i'_def)
        from "1.IH"(1) [OF inb start il refl]
        have "outer_loop buffer i' (frames @ [unstuff_data fd]) =
                (case scan rest' of (fs, r) \<Rightarrow> ((frames @ [unstuff_data fd]) @ fs, r))"
          by (simp add: dr')
        with inb start il Some x2 dr show ?thesis
          by (simp add: outer_loop.simps [of buffer i] scan.simps(1) split: prod.splits)
      qed
    qed
  qed
qed

lemma extract_frames_scan: "extract_frames buffer = scan buffer"
  by (simp add: extract_frames_def outer_loop_scan)

text \<open>
  The sender's side of the wire protocol is not part of the repository. It is written
  here from the protocol description: inside the payload a literal escape byte is sent
  as two escape bytes, and the payload is wrapped between the start marker
  \<open>DLE STX\<close> and the end marker \<open>DLE ETX\<close>.
\<close>

fun stuff :: "byte list \<Rightarrow> byte list" where
  "stuff [] = []"
| "stuff (b # bs) = (if b = DLE then [DLE, DLE] else [b]) @ stuff bs"

definition encode_frame :: "byte list \<Rightarrow> byte list" where
  "encode_frame p = [DLE, STX] @ stuff p @ [DLE, ETX]"

lemma read_frame_literal:
  "b \<noteq> DLE \<Longrightarrow> xs \<noteq> [] \<Longrightarrow> read_frame (b # xs) fd = read_frame xs (fd @ [b])"
  by (cases xs) simp_all

lemma read_frame_stuff_prefix:
  "xs \<noteq> [] \<Longrightarrow> read_frame (stuff p @ xs) fd = read_frame xs (fd @ p)"
proof (induction p arbitrary: fd)
  case Nil
  show ?case by simp
next
  case (Cons b p)
  show ?case
  proof (cases "b = DLE")
    case True
    have "DLE \<noteq> ETX" by (simp add: DLE_def ETX_def)
    with True Cons.IH [OF Cons.prems, of "fd @ [DLE]"] show ?thesis by simp
  next
    case False
    with Cons.IH [OF Cons.prems, of "fd @ [b]"] Cons.prems show ?thesis
      by (simp add: read_frame_literal)
  qed
qed

lemma read_frame_stuff:
  "read_frame (stuff p @ DLE # ETX # rest) fd = Some (fd @ p, rest)"
  by (simp add: read_frame_stuff_prefix)

lemma scan_encode_frame:
  "scan (encode_frame p @ xs) = (case scan xs of (fs, r) \<Rightarrow> (p # fs, r))"
  by (simp add: encode_frame_def scan.simps(1) read_frame_stuff unstuff_data_def)


section \<open>Properties of the frame codec\<close>

text \<open>
  C4 (stuffing round-trip). For every payload \<open>p\<close>, with any number of escape bytes
  in it, doubling each escape byte, wrapping the result between \<open>DLE STX\<close> and
  \<open>DLE ETX\<close> and running \<open>extract_frames\<close> on these bytes gives exactly the one
  frame \<open>p\<close> and an empty remaining buffer.
\<close>

theorem stuffing_roundtrip: "extract_frames (encode_frame p) = ([p], [])"
  using scan_encode_frame [of p "[]"] by (simp add: extract_frames_scan)

lemma scan_frames_append:
  "scan (concat (map encode_frame ps) @ xs) = (ps @ fst (scan xs), snd (scan xs))"
proof (induction ps)
  case Nil
  show ?case by simp
next
  case (Cons p ps)
  have "scan (encode_frame p @ (concat (map encode_frame ps) @ xs))
          = (p # ps @ fst (scan xs), snd (scan xs))"
    unfolding scan_encode_frame [where p = p and xs = "concat (map encode_frame ps) @ xs"] Cons.IH by simp
  then show ?case by simp
qed

lemma read_frame_short: "length xs < 2 \<Longrightarrow> read_frame xs fd = None"
  by (cases "(xs, fd)" rule: read_frame.cases) simp_all

lemma read_frame_partial:
  "body @ suf = stuff p @ [DLE, ETX] \<Longrightarrow> suf \<noteq> [] \<Longrightarrow> read_frame body fd = None"
proof (induction p arbitrary: body fd)
  case Nil
  then have "length body + length suf = 2" and "0 < length suf"
    by (simp_all flip: length_append)
  then have "length body < 2" by linarith
  then show ?case by (rule read_frame_short)
next
  case (Cons b p)
  show ?case
  proof (cases "b = DLE")
    case True
    with Cons.prems(1) have eq: "body @ suf = DLE # DLE # stuff p @ [DLE, ETX]" by simp
    show ?thesis
    proof (cases "length body < 2")
      case True
      then show ?thesis by (rule read_frame_short)
    next
      case False
      then obtain x y body' where body: "body = x # y # body'"
        by (cases body; cases "tl body") auto
      with eq have "x = DLE" "y = DLE" "body' @ suf = stuff p @ [DLE, ETX]" by simp_all
      with Cons.IH [OF _ Cons.prems(2), of body' "fd @ [DLE]"] body show ?thesis
        by (simp add: DLE_def ETX_def)
    qed
  next
    case False
    with Cons.prems(1) have eq: "body @ suf = b # stuff p @ [DLE, ETX]" by simp
    show ?thesis
    proof (cases "length body < 2")
      case True
      then show ?thesis by (rule read_frame_short)
    next
      case False
      then obtain x y body' where body: "body = x # y # body'"
        by (cases body; cases "tl body") auto
      with eq have "x = b" "(y # body') @ suf = stuff p @ [DLE, ETX]" by simp_all
      with Cons.IH [OF _ Cons.prems(2), of "y # body'" "fd @ [b]"] body \<open>b \<noteq> DLE\<close> show ?thesis
        by simp
    qed
  qed
qed

lemma scan_partial_frame:
  assumes "encode_frame p = pre @ suf" and "suf \<noteq> []" and "length pre \<noteq> 1"
  shows "scan pre = ([], pre)"
proof (cases pre)
  case Nil
  then show ?thesis by simp
next
  case (Cons x pre')
  with assms(3) obtain y body where pre: "pre = x # y # body" by (cases pre') auto
  with assms(1) have "x = DLE" "y = STX" "body @ suf = stuff p @ [DLE, ETX]"
    by (simp_all add: encode_frame_def)
  with read_frame_partial [OF _ assms(2), of body p "[]"] pre show ?thesis
    by (simp add: scan.simps(1))
qed

text \<open>
  Two calls against one. A stream of frames \<open>ps1\<close>, \<open>p\<close>, \<open>ps2\<close> is cut inside (or
  at either end of) the encoding of \<open>p\<close>, into \<open>pre\<close> and \<open>suf\<close>. Unless the cut
  falls right after the first byte of the start marker of \<open>p\<close>, the frames of the call
  on the first part, followed by the frames of the call on its remaining buffer
  extended with the second part, are the frames of one call on the whole stream, which
  are the frames sent.
\<close>

lemma partial_buffer_equivalence_outside_marker:
  fixes ps1 ps2 :: "byte list list"
  assumes "encode_frame p = pre @ suf" and "length pre \<noteq> 1"
  defines "first \<equiv> concat (map encode_frame ps1) @ pre"
  defines "second \<equiv> suf @ concat (map encode_frame ps2)"
  shows "fst (extract_frames first) @ fst (extract_frames (snd (extract_frames first) @ second))
           = fst (extract_frames (first @ second)) \<and>
         fst (extract_frames (first @ second)) = ps1 @ p # ps2"
proof -
  have whole: "scan (first @ second) = (ps1 @ p # ps2, [])"
    using scan_frames_append [of "ps1 @ p # ps2" "[]"] assms(1)
    by (simp add: first_def second_def)
  have rest: "scan (encode_frame p @ concat (map encode_frame ps2)) = (p # ps2, [])"
    using scan_frames_append [of "p # ps2" "[]"] by simp
  have two: "fst (scan first) @ fst (scan (snd (scan first) @ second)) = ps1 @ p # ps2"
  proof (cases "suf = []")
    case True
    with assms(1) have "scan first = (ps1 @ [p], [])"
      using scan_frames_append [of "ps1 @ [p]" "[]"] by (simp add: first_def)
    moreover from True have "scan second = (ps2, [])"
      using scan_frames_append [of ps2 "[]"] by (simp add: second_def)
    ultimately show ?thesis by simp
  next
    case False
    from scan_partial_frame [OF assms(1) False assms(2)]
    have "scan first = (ps1, pre)"
      by (simp add: first_def scan_frames_append)
    with rest assms(1) show ?thesis by (simp add: second_def)
  qed
  from whole two show ?thesis by (simp add: extract_frames_scan)
qed

text \<open>
  C1 (partial-buffer equivalence), at the stream \<open>DLE STX 0x41 DLE ETX\<close> split after
  its first byte. One call on the whole stream returns the frame \<open>[0x41]\<close>. The call
  on the first byte alone returns no frame and an empty remaining buffer: the outer loop
  is not entered with fewer than two bytes, so the escape byte of the start marker is
  dropped instead of kept. The second call, on that remaining buffer followed by the
  rest of the stream, finds no start marker and returns no frame.
\<close>

theorem split_inside_start_marker_loses_frame:
  "extract_frames [0x10, 0x02, 0x41, 0x10, 0x03] = ([[0x41]], []) \<and>
   extract_frames (take 1 [0x10, 0x02, 0x41, 0x10, 0x03]) = ([], []) \<and>
   extract_frames (snd (extract_frames (take 1 [0x10, 0x02, 0x41, 0x10, 0x03]))
                    @ drop 1 [0x10, 0x02, 0x41, 0x10, 0x03]) = ([], [])"
  by code_simp

text \<open>
  C3, as stated (the byte after the escape byte is what is copied, the escape byte is
  not consumed), at the buffer \<open>DLE STX DLE 0x41 DLE ETX\<close>: the inner loop, started at
  index 2 on the escape byte, appends the escape byte itself and moves on to index 3,
  so it leaves at index 6 with the payload \<open>[0x10, 0x41]\<close>, and the frame that comes
  out is \<open>[0x10, 0x41]\<close>, not \<open>[0x41]\<close>.
\<close>

theorem lone_escape_counterexample:
  "inner_loop [0x10, 0x02, 0x10, 0x41, 0x10, 0x03] 2 [] = Some ([0x10, 0x41], 6) \<and>
   extract_frames [0x10, 0x02, 0x10, 0x41, 0x10, 0x03] = ([[0x10, 0x41]], []) \<and>
   extract_frames [0x10, 0x02, 0x10, 0x41, 0x10, 0x03] \<noteq> ([[0x41]], [])"
  by code_simp

text \<open>
  C3, amended. When inside a started frame the escape byte is followed by a byte \<open>b\<close>
  that is neither the end-of-frame byte nor another escape byte, the inner loop appends
  the escape byte itself to the payload and advances by one byte, so \<open>b\<close> is read next
  as an ordinary input byte. In a frame that is later terminated both bytes are in the
  payload: the wire bytes \<open>DLE b\<close> between stuffed parts \<open>p\<close> and \<open>q\<close> give the
  payload \<open>p @ [DLE, b] @ q\<close>.
\<close>

theorem lone_escape_is_literal:
  assumes "b \<noteq> ETX" and "b \<noteq> DLE"
    and "j + 1 < length buffer" and "buffer ! j = DLE" and "buffer ! (j + 1) = b"
  shows "inner_loop buffer j frame_data = inner_loop buffer (j + 1) (frame_data @ [DLE]) \<and>
         extract_frames ([DLE, STX] @ stuff p @ [DLE, b] @ stuff q @ [DLE, ETX])
           = ([p @ [DLE, b] @ q], [])"
proof
  show "inner_loop buffer j frame_data = inner_loop buffer (j + 1) (frame_data @ [DLE])"
    by (subst inner_loop.simps) (use assms in simp)
next
  have "read_frame (stuff p @ DLE # b # stuff q @ [DLE, ETX]) []
          = read_frame (DLE # b # stuff q @ [DLE, ETX]) p"
    by (simp add: read_frame_stuff_prefix)
  also have "\<dots> = read_frame (b # stuff q @ [DLE, ETX]) (p @ [DLE])"
    using assms(1,2) by simp
  also have "\<dots> = read_frame (stuff q @ [DLE, ETX]) (p @ [DLE, b])"
    using assms(2) by (simp add: read_frame_literal)
  also have "\<dots> = Some (p @ [DLE, b] @ q, [])"
    using read_frame_stuff [of q "[]" "p @ [DLE, b]"] by simp
  finally have "read_frame (stuff p @ DLE # b # stuff q @ [DLE, ETX]) []
                  = Some (p @ [DLE, b] @ q, [])" .
  then show "extract_frames ([DLE, STX] @ stuff p @ [DLE, b] @ stuff q @ [DLE, ETX])
               = ([p @ [DLE, b] @ q], [])"
    by (simp add: extract_frames_scan scan.simps(1) unstuff_data_def)
qed

theorem lone_escape_is_literal_witness:
  "inner_loop [0x10, 0x02, 0x41, 0x10, 0x42, 0x43, 0x10, 0x03] 3 [0x41]
     = inner_loop [0x10, 0x02, 0x41, 0x10, 0x42, 0x43, 0x10, 0x03] 4 [0x41, 0x10] \<and>
   extract_frames [0x10, 0x02, 0x41, 0x10, 0x42, 0x43, 0x10, 0x03]
     = ([[0x41, 0x10, 0x42, 0x43]], [])"
  using lone_escape_is_literal [of "0x42" 3 "[0x10, 0x02, 0x41, 0x10, 0x42, 0x43, 0x10, 0x03]"
      "[0x41]" "[0x41]" "[0x43]"]
  by (simp add: DLE_def STX_def ETX_def)

section \<open>Exceptions, \<^verbatim>\<open>try\<close> and \<^verbatim>\<open>for\<close>\<close>

text \<open>
  A Python statement either ends normally or raises. A statement is modelled as a
  function from the state to an outcome and a new state; the outcome \<open>Inl e\<close> is the
  exception \<open>e\<close> on its way to the caller, and the state keeps what was written before
  the exception was raised. \<open>try_except\<close> is \<^verbatim>\<open>try: body except Exception as e: handler\<close>,
  \<open>for_each\<close> is a \<^verbatim>\<open>for\<close> loop, left by the first exception that its body lets through.
  \<open>str e\<close> is the message of an exception.
\<close>

datatype exn = Exception string

fun str :: "exn \<Rightarrow> string" where
  "str (Exception msg) = msg"

type_synonym ('a, 's) prog = "'s \<Rightarrow> (exn + 'a) \<times> 's"

definition lift :: "exn + 'a \<Rightarrow> ('a, 's) prog" where
  "lift r s = (r, s)"

definition bind_exn :: "('a, 's) prog \<Rightarrow> ('a \<Rightarrow> ('b, 's) prog) \<Rightarrow> ('b, 's) prog" where
  "bind_exn m f s = (case m s of (Inl e, s') \<Rightarrow> (Inl e, s') | (Inr a, s') \<Rightarrow> f a s')"

definition try_except :: "('a, 's) prog \<Rightarrow> (exn \<Rightarrow> ('a, 's) prog) \<Rightarrow> ('a, 's) prog" where
  "try_except body handler s =
     (case body s of (Inl e, s') \<Rightarrow> handler e s' | (Inr a, s') \<Rightarrow> (Inr a, s'))"

fun for_each :: "'a list \<Rightarrow> ('a \<Rightarrow> (unit, 's) prog) \<Rightarrow> (unit, 's) prog" where
  "for_each [] body s = (Inr (), s)"
| "for_each (x # xs) body s = bind_exn (body x) (\<lambda>_. for_each xs body) s"

text \<open>
  The environment of the processor: the state \<open>'w\<close> of the registered consumers and
  the lines written to standard output.
\<close>

type_synonym 'w env = "'w \<times> string list"

definition print :: "string \<Rightarrow> (unit, 'w env) prog" where
  "print line = (\<lambda>(w, out). (Inr (), (w, out @ [line])))"

section \<open>Aircraft records and the data processor (data\_processor.py)\<close>

text \<open>
  An aircraft record is a Python dict decoded from JSON. It is modelled with the keys
  the program reads. A key is absent, present with JSON \<^verbatim>\<open>null\<close>, or present with a
  value; \<open>dict_get\<close> is \<^verbatim>\<open>aircraft.get(key)\<close> and \<open>dict_get_default\<close> is
  \<^verbatim>\<open>aircraft.get(key, d)\<close>, which returns \<^verbatim>\<open>None\<close> for a key that is present with
  \<^verbatim>\<open>null\<close>. The values have the types of the data model, with one exception: the
  altitude, which the program compares with the thresholds, may also hold a JSON value
  that is not a number (a string, say), and then the comparison raises TypeError.
\<close>

datatype 'a field = Absent | Null | Val 'a

fun dict_get :: "'a field \<Rightarrow> 'a option" where
  "dict_get (Val v) = Some v"
| "dict_get Null = None"
| "dict_get Absent = None"

fun dict_get_default :: "'a field \<Rightarrow> 'a \<Rightarrow> 'a option" where
  "dict_get_default (Val v) d = Some v"
| "dict_get_default Null d = None"
| "dict_get_default Absent d = Some d"

datatype altitude_value = Feet int | NonNumeric

fun less_than :: "altitude_value \<Rightarrow> int \<Rightarrow> exn + bool" where
  "less_than (Feet x) m = Inr (x < m)"
| "less_than NonNumeric m = Inl (Exception ''TypeError'')"

fun greater_than :: "altitude_value \<Rightarrow> int \<Rightarrow> exn + bool" where
  "greater_than (Feet x) m = Inr (x > m)"
| "greater_than NonNumeric m = Inl (Exception ''TypeError'')"

record aircraft =
  adshex :: "string field"
  lat :: "real field"
  lon :: "real field"
  altitude :: "altitude_value field"
  is_on_ground :: "bool field"
  vert_rate :: "int field"
  heading :: "real field"
  speed :: "real field"

text \<open>
  What \<^verbatim>\<open>json.loads\<close> returns for a frame: a mapping from aircraft id to value, in
  insertion order, or some other JSON value, of which only the truth value matters.
  A value of the mapping is a record (a dict) or a JSON value that is not a dict, on
  which \<^verbatim>\<open>aircraft.get\<close> raises AttributeError.
\<close>

datatype record_value = Dict aircraft | NonDict

datatype payload = Mapping "(string \<times> record_value) list" | NonMapping bool

fun truthy :: "payload \<Rightarrow> bool" where
  "truthy (Mapping m) = (m \<noteq> [])"
| "truthy (NonMapping t) = t"

text \<open>
  The filter dict with its two keys; \<open>None\<close> is a key that is not in the dict.
  The statistics dict. Python integers are unbounded; the pass rate is a float, modelled
  as a real number.
\<close>

record filter_config =
  max_altitude :: "int option"
  min_altitude :: "int option"

record filter_stats =
  total_aircraft :: int
  filtered_aircraft :: int
  ground_filtered :: int
  low_altitude_filtered :: int
  payloads_processed :: int
  filter_pass_rate :: real
  current_filters :: filter_config

text \<open>
  A consumer is any callable: it may change its own state and then return or raise.
\<close>

type_synonym 'w callback = "aircraft list \<Rightarrow> (unit, 'w) prog"

record 'w data_processor =
  filters :: filter_config
  stats :: filter_stats
  callbacks :: "'w callback list"

text \<open>
  \<^verbatim>\<open>__init__\<close>: \<^verbatim>\<open>filters or {...}\<close> takes the default for \<^verbatim>\<open>None\<close> and for the
  empty dict.
\<close>

definition default_filters :: filter_config where
  "default_filters = \<lparr>max_altitude = Some 10000, min_altitude = Some 100\<rparr>"

definition init_data_processor :: "filter_config option \<Rightarrow> 'w data_processor" where
  "init_data_processor arg =
     (let fs = (case arg of
                  None \<Rightarrow> default_filters
                | Some f \<Rightarrow> if max_altitude f = None \<and> min_altitude f = None
                            then default_filters else f)
      in \<lparr>filters = fs,
          stats = \<lparr>total_aircraft = 0, filtered_aircraft = 0, ground_filtered = 0,
                   low_altitude_filtered = 0, payloads_processed = 0,
                   filter_pass_rate = 0, current_filters = fs\<rparr>,
          callbacks = []\<rparr>)"

definition add_callback :: "'w callback \<Rightarrow> 'w data_processor \<Rightarrow> 'w data_processor" where
  "add_callback callback self = self\<lparr>callbacks := callbacks self @ [callback]\<rparr>"

text \<open>
  \<^verbatim>\<open>_passes_filters\<close> reads \<^verbatim>\<open>self.filters\<close> and writes \<^verbatim>\<open>self.stats\<close>, so it
  returns the processor with the verdict. The two threshold tests are
  \<^verbatim>\<open>"min_altitude" in self.filters and altitude < self.filters["min_altitude"]\<close> and the
  same with \<^verbatim>\<open>max_altitude\<close> and \<^verbatim>\<open>>\<close>; a comparison that raises leaves the function
  with the exception.
\<close>

definition passes_filters :: "aircraft \<Rightarrow> (bool, 'w data_processor) prog" where
  "passes_filters aircraft self =
     (if dict_get (lat aircraft) = None \<or> dict_get (lon aircraft) = None then (Inr False, self)
      else if dict_get_default (is_on_ground aircraft) False = Some True then
        (Inr False,
         self\<lparr>stats := (stats self)\<lparr>ground_filtered := ground_filtered (stats self) + 1\<rparr>\<rparr>)
      else
        (case dict_get (altitude aircraft) of
           None \<Rightarrow> (Inr False, self)
         | Some alt \<Rightarrow>
             (case (case min_altitude (filters self) of
                      None \<Rightarrow> Inr False | Some m \<Rightarrow> less_than alt m) of
                Inl e \<Rightarrow> (Inl e, self)
              | Inr True \<Rightarrow>
                  (Inr False, self\<lparr>stats := (stats self)\<lparr>low_altitude_filtered :=
                                     low_altitude_filtered (stats self) + 1\<rparr>\<rparr>)
              | Inr False \<Rightarrow>
                  (case (case max_altitude (filters self) of
                           None \<Rightarrow> Inr False | Some m \<Rightarrow> greater_than alt m) of
                     Inl e \<Rightarrow> (Inl e, self)
                   | Inr True \<Rightarrow> (Inr False, self)
                   | Inr False \<Rightarrow> (Inr True, self)))))"

text \<open>
  The loop \<^verbatim>\<open>for aircraft in all_aircraft\<close> of \<^verbatim>\<open>process_aircraft_data\<close>. An
  exception of \<^verbatim>\<open>_passes_filters\<close> leaves the loop; the counters incremented so far
  stay incremented.
\<close>

fun filter_loop ::
  "record_value list \<Rightarrow> 'w data_processor \<Rightarrow> aircraft list
     \<Rightarrow> (exn + aircraft list) \<times> 'w data_processor" where
  "filter_loop [] self filtered = (Inr filtered, self)"
| "filter_loop (NonDict # rest) self filtered = (Inl (Exception ''AttributeError''), self)"
| "filter_loop (Dict aircraft # rest) self filtered =
     (case passes_filters aircraft self of
        (Inl e, self') \<Rightarrow> (Inl e, self')
      | (Inr True, self') \<Rightarrow> filter_loop rest self' (filtered @ [aircraft])
      | (Inr False, self') \<Rightarrow> filter_loop rest self' filtered)"

text \<open>
  The notification loop: each callback is called inside its own \<^verbatim>\<open>try\<close>, and the
  handler prints the exception.
\<close>

definition call :: "'w callback \<Rightarrow> aircraft list \<Rightarrow> (unit, 'w env) prog" where
  "call callback arg = (\<lambda>(w, out). case callback arg w of (r, w') \<Rightarrow> (r, (w', out)))"

definition notify_callbacks :: "'w callback list \<Rightarrow> aircraft list \<Rightarrow> (unit, 'w env) prog" where
  "notify_callbacks cbs filtered =
     for_each cbs (\<lambda>callback.
       try_except (call callback filtered)
                  (\<lambda>e. print (''Callback error: '' @ str e)))"

text \<open>
  \<^verbatim>\<open>process_aircraft_data\<close>. The payload counter is incremented first; then
  \<^verbatim>\<open>aircraft_dict.values()\<close> raises AttributeError when the decoded value is not a dict.
  The total is incremented before the filter loop; when the loop raises, the operation
  ends there, with the passed counter and the pass rate as they were and no consumer
  called. \<^verbatim>\<open>round(x, 1)\<close> is a Python builtin on floats; it is the parameter
  \<open>rounding\<close>, and the division and the product are those of the real numbers.
\<close>

definition process_aircraft_data ::
  "(real \<Rightarrow> real) \<Rightarrow> payload \<Rightarrow> (aircraft list, 'w data_processor \<times> 'w env) prog" where
  "process_aircraft_data rounding aircraft_dict = (\<lambda>(self, env).
     let self1 = self\<lparr>stats := (stats self)\<lparr>payloads_processed :=
                         payloads_processed (stats self) + 1\<rparr>\<rparr>
     in case aircraft_dict of
          NonMapping t \<Rightarrow> (Inl (Exception ''AttributeError''), (self1, env))
        | Mapping m \<Rightarrow>
           (let all_aircraft = map snd m;
                self2 = self1\<lparr>stats := (stats self1)\<lparr>total_aircraft :=
                          total_aircraft (stats self1) + int (length all_aircraft)\<rparr>\<rparr>
            in case filter_loop all_aircraft self2 [] of
                 (Inl e, self3) \<Rightarrow> (Inl e, (self3, env))
               | (Inr filtered, self3) \<Rightarrow>
                  (let self4 = self3\<lparr>stats := (stats self3)\<lparr>filtered_aircraft :=
                                 filtered_aircraft (stats self3) + int (length filtered)\<rparr>\<rparr>;
                       self5 = (if total_aircraft (stats self4) > 0
                                then self4\<lparr>stats := (stats self4)\<lparr>filter_pass_rate :=
                                       rounding (real_of_int (filtered_aircraft (stats self4))
                                          / real_of_int (total_aircraft (stats self4)) * 100)\<rparr>\<rparr>
                                else self4)
                   in if filtered \<noteq> [] \<and> callbacks self5 \<noteq> [] then
                        (case notify_callbacks (callbacks self5) filtered env of
                           (Inl e, env') \<Rightarrow> (Inl e, (self5, env'))
                         | (Inr u, env') \<Rightarrow> (Inr filtered, (self5, env')))
                      else (Inr filtered, (self5, env)))))"

definition update_filters :: "filter_config \<Rightarrow> 'w data_processor \<Rightarrow> 'w data_processor" where
  "update_filters new_filters self =
     (let fs = \<lparr>max_altitude = (case max_altitude new_filters of
                                  None \<Rightarrow> max_altitude (filters self) | Some v \<Rightarrow> Some v),
                min_altitude = (case min_altitude new_filters of
                                  None \<Rightarrow> min_altitude (filters self) | Some v \<Rightarrow> Some v)\<rparr>
      in self\<lparr>filters := fs, stats := (stats self)\<lparr>current_filters := fs\<rparr>\<rparr>)"

definition get_stats :: "'w data_processor \<Rightarrow> filter_stats" where
  "get_stats self = stats self"

section \<open>The filter engine as the specification describes it\<close>

text \<open>
  The five checks in their order, the first check that fails, and the counter a
  rejection increments: these follow the description of the filter engine and are
  compared with \<open>passes_filters\<close> below. \<open>deliver\<close> invokes every consumer once, in
  list order, whatever the earlier ones did, and logs each failure. \<open>reachable\<close> are
  the processors that a sequence of operations builds from a new one, the operations
  that raised included.
\<close>

datatype check = Coordinates | NotOnGround | AltitudePresent | AltitudeMin | AltitudeMax

fun check_ok :: "filter_config \<Rightarrow> aircraft \<Rightarrow> check \<Rightarrow> bool" where
  "check_ok cfg a Coordinates = (dict_get (lat a) \<noteq> None \<and> dict_get (lon a) \<noteq> None)"
| "check_ok cfg a NotOnGround = (is_on_ground a \<noteq> Val True)"
| "check_ok cfg a AltitudePresent = (dict_get (altitude a) \<noteq> None)"
| "check_ok cfg a AltitudeMin =
     (case (dict_get (altitude a), min_altitude cfg) of
        (Some (Feet x), Some m) \<Rightarrow> m \<le> x | _ \<Rightarrow> True)"
| "check_ok cfg a AltitudeMax =
     (case (dict_get (altitude a), max_altitude cfg) of
        (Some (Feet x), Some m) \<Rightarrow> x \<le> m | _ \<Rightarrow> True)"

definition first_failing_check :: "filter_config \<Rightarrow> aircraft \<Rightarrow> check option" where
  "first_failing_check cfg a =
     find (\<lambda>c. \<not> check_ok cfg a c)
          [Coordinates, NotOnGround, AltitudePresent, AltitudeMin, AltitudeMax]"

fun count_rejection :: "check option \<Rightarrow> filter_stats \<Rightarrow> filter_stats" where
  "count_rejection (Some NotOnGround) st = st\<lparr>ground_filtered := ground_filtered st + 1\<rparr>"
| "count_rejection (Some AltitudeMin) st =
     st\<lparr>low_altitude_filtered := low_altitude_filtered st + 1\<rparr>"
| "count_rejection c st = st"

definition accepted_by :: "filter_config \<Rightarrow> aircraft \<Rightarrow> bool" where
  "accepted_by cfg a = (first_failing_check cfg a = None)"

text \<open>
  The values outside the data model. \<open>type_error\<close> holds of a record that reaches a
  threshold comparison with an altitude that is not a number; \<open>raises_on\<close> holds of a
  value of the mapping on which the filter raises; \<open>dicts\<close> are the records among the
  values, \<open>good_prefix\<close> the records before the first value on which the filter raises,
  and \<open>first_exn\<close> the exception raised there.
\<close>

definition type_error :: "filter_config \<Rightarrow> aircraft \<Rightarrow> bool" where
  "type_error cfg a \<longleftrightarrow>
     dict_get (lat a) \<noteq> None \<and> dict_get (lon a) \<noteq> None \<and> is_on_ground a \<noteq> Val True \<and>
     altitude a = Val NonNumeric \<and> (min_altitude cfg \<noteq> None \<or> max_altitude cfg \<noteq> None)"

fun raises_on :: "filter_config \<Rightarrow> record_value \<Rightarrow> bool" where
  "raises_on cfg NonDict = True"
| "raises_on cfg (Dict a) = type_error cfg a"

fun dicts :: "record_value list \<Rightarrow> aircraft list" where
  "dicts [] = []"
| "dicts (Dict a # vs) = a # dicts vs"
| "dicts (NonDict # vs) = dicts vs"

definition good_prefix :: "filter_config \<Rightarrow> record_value list \<Rightarrow> aircraft list" where
  "good_prefix cfg vs = dicts (takeWhile (\<lambda>v. \<not> raises_on cfg v) vs)"

fun first_exn :: "filter_config \<Rightarrow> record_value list \<Rightarrow> exn" where
  "first_exn cfg [] = Exception []"
| "first_exn cfg (NonDict # vs) = Exception ''AttributeError''"
| "first_exn cfg (Dict a # vs) =
     (if type_error cfg a then Exception ''TypeError'' else first_exn cfg vs)"

fun deliver :: "'w callback list \<Rightarrow> aircraft list \<Rightarrow> 'w env \<Rightarrow> 'w env" where
  "deliver [] accepted (w, out) = (w, out)"
| "deliver (consumer # rest) accepted (w, out) =
     (case consumer accepted w of
        (Inr u, w') \<Rightarrow> deliver rest accepted (w', out)
      | (Inl e, w') \<Rightarrow> deliver rest accepted (w', out @ [''Callback error: '' @ str e]))"

inductive reachable :: "(real \<Rightarrow> real) \<Rightarrow> 'w data_processor \<Rightarrow> bool" for rounding where
  init: "reachable rounding (init_data_processor arg)"
| process: "reachable rounding self \<Longrightarrow>
            process_aircraft_data rounding aircraft_dict (self, env) = (r, (self', env')) \<Longrightarrow>
            reachable rounding self'"
| update: "reachable rounding self \<Longrightarrow> reachable rounding (update_filters new_filters self)"
| add: "reachable rounding self \<Longrightarrow> reachable rounding (add_callback callback self)"

text \<open>
  Rounding to one decimal place: the result is a whole number of tenths, and a nearest
  one. \<open>nearest_tenth\<close> is such a rounding, used in the examples.
\<close>

definition rounds_to_one_decimal :: "(real \<Rightarrow> real) \<Rightarrow> bool" where
  "rounds_to_one_decimal rounding \<longleftrightarrow>
     (\<forall>x. (\<exists>n :: int. rounding x = real_of_int n / 10) \<and> \<bar>rounding x - x\<bar> \<le> 1 / 20)"

definition nearest_tenth :: "real \<Rightarrow> real" where
  "nearest_tenth x = real_of_int (round (x * 10)) / 10"

lemma nearest_tenth_rounds: "rounds_to_one_decimal nearest_tenth"
proof -
  have "\<bar>real_of_int (round (x * 10)) / 10 - x\<bar> \<le> 1 / 20" for x :: real
  proof -
    have "\<bar>real_of_int (round (x * 10)) - x * 10\<bar> \<le> 1 / 2" by (rule of_int_round_abs_le)
    then show ?thesis by (simp add: abs_le_iff field_simps)
  qed
  then show ?thesis by (auto simp: rounds_to_one_decimal_def nearest_tenth_def)
qed

lemma passes_filters_verdict:
  "passes_filters a self =
     (if type_error (filters self) a then (Inl (Exception ''TypeError''), self)
      else (Inr (first_failing_check (filters self) a = None),
            self\<lparr>stats := count_rejection (first_failing_check (filters self) a) (stats self)\<rparr>))"
proof (cases "dict_get (lat a) = None \<or> dict_get (lon a) = None \<or> is_on_ground a = Val True
              \<or> dict_get (altitude a) = None")
  case True
  then show ?thesis
    by (cases "is_on_ground a")
       (auto simp: passes_filters_def first_failing_check_def type_error_def)
next
  case False
  then obtain v where v: "altitude a = Val v" by (cases "altitude a") auto
  from False have g: "dict_get_default (is_on_ground a) False \<noteq> Some True"
    by (cases "is_on_ground a") auto
  show ?thesis
  proof (cases v)
    case (Feet x)
    with False v g show ?thesis
      by (cases "min_altitude (filters self)"; cases "max_altitude (filters self)")
         (auto simp: passes_filters_def first_failing_check_def type_error_def)
  next
    case NonNumeric
    with False v g show ?thesis
      by (cases "min_altitude (filters self)"; cases "max_altitude (filters self)")
         (auto simp: passes_filters_def first_failing_check_def type_error_def)
  qed
qed

lemma length_dicts: "\<forall>v \<in> set vs. \<not> raises_on cfg v \<Longrightarrow> length (dicts vs) = length vs"
  by (induction vs rule: dicts.induct) auto

lemma good_prefix_all:
  assumes "\<forall>v \<in> set vs. \<not> raises_on cfg v"
  shows "good_prefix cfg vs = dicts vs"
proof -
  from assms have "takeWhile (\<lambda>v. \<not> raises_on cfg v) vs = vs"
    by (simp add: takeWhile_eq_all_conv)
  then show ?thesis unfolding good_prefix_def by (rule arg_cong)
qed

lemma filter_loop_eq:
  "filter_loop vs self acc =
     (if \<forall>v \<in> set vs. \<not> raises_on (filters self) v
      then Inr (acc @ filter (accepted_by (filters self)) (dicts vs))
      else Inl (first_exn (filters self) vs),
      self\<lparr>stats := foldl (\<lambda>st a. count_rejection (first_failing_check (filters self) a) st)
                          (stats self) (good_prefix (filters self) vs)\<rparr>)"
proof (induction vs arbitrary: self acc)
  case Nil
  show ?case by (simp add: good_prefix_def)
next
  case (Cons v vs)
  show ?case
  proof (cases v)
    case NonDict
    then show ?thesis by (simp add: good_prefix_def)
  next
    case (Dict aircraft)
    show ?thesis
    proof (cases "type_error (filters self) aircraft")
      case True
      with Dict show ?thesis by (simp add: passes_filters_verdict good_prefix_def)
    next
      case False
      then show ?thesis
        by (cases "first_failing_check (filters self) aircraft")
           (simp_all add: Dict passes_filters_verdict Cons.IH good_prefix_def accepted_by_def)
    qed
  qed
qed

lemma foldl_count_rejection:
  fixes f :: "aircraft \<Rightarrow> check option"
  defines "st' \<equiv> \<lambda>st xs. foldl (\<lambda>st a. count_rejection (f a) st) st xs"
  shows "total_aircraft (st' st xs) = total_aircraft st"
    and "filtered_aircraft (st' st xs) = filtered_aircraft st"
    and "payloads_processed (st' st xs) = payloads_processed st"
    and "filter_pass_rate (st' st xs) = filter_pass_rate st"
    and "current_filters (st' st xs) = current_filters st"
    and "ground_filtered (st' st xs) =
           ground_filtered st + int (length (filter (\<lambda>a. f a = Some NotOnGround) xs))"
    and "low_altitude_filtered (st' st xs) =
           low_altitude_filtered st + int (length (filter (\<lambda>a. f a = Some AltitudeMin) xs))"
proof -
  have step: "total_aircraft (count_rejection c st) = total_aircraft st
      \<and> filtered_aircraft (count_rejection c st) = filtered_aircraft st
      \<and> payloads_processed (count_rejection c st) = payloads_processed st
      \<and> filter_pass_rate (count_rejection c st) = filter_pass_rate st
      \<and> current_filters (count_rejection c st) = current_filters st
      \<and> ground_filtered (count_rejection c st)
          = ground_filtered st + (if c = Some NotOnGround then 1 else 0)
      \<and> low_altitude_filtered (count_rejection c st)
          = low_altitude_filtered st + (if c = Some AltitudeMin then 1 else 0)"
    for c st
    by (cases "(c, st)" rule: count_rejection.cases) auto
  have all: "total_aircraft (st' st xs) = total_aircraft st
      \<and> filtered_aircraft (st' st xs) = filtered_aircraft st
      \<and> payloads_processed (st' st xs) = payloads_processed st
      \<and> filter_pass_rate (st' st xs) = filter_pass_rate st
      \<and> current_filters (st' st xs) = current_filters st
      \<and> ground_filtered (st' st xs) =
           ground_filtered st + int (length (filter (\<lambda>a. f a = Some NotOnGround) xs))
      \<and> low_altitude_filtered (st' st xs) =
           low_altitude_filtered st + int (length (filter (\<lambda>a. f a = Some AltitudeMin) xs))"
  proof (induction xs arbitrary: st)
    case Nil
    show ?case by (simp add: st'_def)
  next
    case (Cons a xs)
    have "st' st (a # xs) = st' (count_rejection (f a) st) xs" by (simp add: st'_def)
    with Cons.IH [of "count_rejection (f a) st"] step [of "f a" st] show ?case by simp
  qed
  from all show "total_aircraft (st' st xs) = total_aircraft st"
    and "filtered_aircraft (st' st xs) = filtered_aircraft st"
    and "payloads_processed (st' st xs) = payloads_processed st"
    and "filter_pass_rate (st' st xs) = filter_pass_rate st"
    and "current_filters (st' st xs) = current_filters st"
    and "ground_filtered (st' st xs) =
           ground_filtered st + int (length (filter (\<lambda>a. f a = Some NotOnGround) xs))"
    and "low_altitude_filtered (st' st xs) =
           low_altitude_filtered st + int (length (filter (\<lambda>a. f a = Some AltitudeMin) xs))"
    by simp_all
qed

lemma notify_callbacks_deliver:
  "notify_callbacks cbs accepted env = (Inr (), deliver cbs accepted env)"
proof (induction cbs arbitrary: env)
  case Nil
  show ?case by (cases env) (simp add: notify_callbacks_def)
next
  case (Cons cb cbs)
  obtain w out where env: "env = (w, out)" by (cases env)
  obtain r w' where cb: "cb accepted w = (r, w')" by (cases "cb accepted w")
  show ?case
  proof (cases r)
    case (Inl e)
    with env cb Cons.IH [of "(w', out @ [''Callback error: '' @ str e])"] show ?thesis
      by (simp add: notify_callbacks_def bind_exn_def try_except_def call_def print_def)
  next
    case (Inr u)
    with env cb Cons.IH [of "(w', out)"] show ?thesis
      by (simp add: notify_callbacks_def bind_exn_def try_except_def call_def)
  qed
qed

lemma deliver_world:
  "fst (deliver cbs accepted (w, out)) = foldl (\<lambda>w consumer. snd (consumer accepted w)) w cbs"
proof (induction cbs arbitrary: w out)
  case Nil
  show ?case by simp
next
  case (Cons cb cbs)
  obtain r w' where cb: "cb accepted w = (r, w')" by (cases "cb accepted w")
  then show ?case by (cases r) (simp_all add: Cons.IH)
qed

text \<open>
  What a call of \<^verbatim>\<open>process_aircraft_data\<close> on a mapping does to the statistics, when
  it returns and when the filter loop raises.
\<close>

definition batch_stats :: "(real \<Rightarrow> real) \<Rightarrow> filter_config \<Rightarrow> aircraft list \<Rightarrow> filter_stats \<Rightarrow> filter_stats" where
  "batch_stats rounding cfg xs st =
     (let st3 = foldl (\<lambda>st a. count_rejection (first_failing_check cfg a) st)
                  (st\<lparr>payloads_processed := payloads_processed st + 1,
                      total_aircraft := total_aircraft st + int (length xs)\<rparr>) xs;
          st4 = st3\<lparr>filtered_aircraft :=
                  filtered_aircraft st3 + int (length (filter (accepted_by cfg) xs))\<rparr>
      in if total_aircraft st4 > 0
         then st4\<lparr>filter_pass_rate :=
                rounding (real_of_int (filtered_aircraft st4) / real_of_int (total_aircraft st4) * 100)\<rparr>
         else st4)"

definition failed_stats :: "filter_config \<Rightarrow> record_value list \<Rightarrow> filter_stats \<Rightarrow> filter_stats" where
  "failed_stats cfg vs st =
     foldl (\<lambda>st a. count_rejection (first_failing_check cfg a) st)
       (st\<lparr>payloads_processed := payloads_processed st + 1,
           total_aircraft := total_aircraft st + int (length vs)\<rparr>) (good_prefix cfg vs)"

lemma process_mapping:
  assumes "\<forall>v \<in> set (map snd m). \<not> raises_on (filters self) v"
  shows "process_aircraft_data rounding (Mapping m) (self, env) =
     (Inr (filter (accepted_by (filters self)) (dicts (map snd m))),
      (self\<lparr>stats := batch_stats rounding (filters self) (dicts (map snd m)) (stats self)\<rparr>,
       if filter (accepted_by (filters self)) (dicts (map snd m)) \<noteq> []
       then deliver (callbacks self) (filter (accepted_by (filters self)) (dicts (map snd m))) env
       else env))"
proof -
  have d: "deliver [] acc env = env" for acc by (cases env) simp
  have l: "length (dicts (map snd m)) = length m"
    using length_dicts [OF assms] by simp
  have g: "good_prefix (filters self) (map snd m) = dicts (map snd m)"
    using assms by (rule good_prefix_all)
  have fl: "filter_loop (map snd m) s [] =
      (Inr (filter (accepted_by (filters self)) (dicts (map snd m))),
       s\<lparr>stats := foldl (\<lambda>st a. count_rejection (first_failing_check (filters self) a) st)
                        (stats s) (dicts (map snd m))\<rparr>)"
    if "filters s = filters self" for s :: "'a data_processor"
    using assms that g by (simp add: filter_loop_eq)
  show ?thesis
    by (simp add: process_aircraft_data_def fl notify_callbacks_deliver
        batch_stats_def Let_def d l)
qed

lemma process_mapping_raises:
  assumes "\<not> (\<forall>v \<in> set (map snd m). \<not> raises_on (filters self) v)"
  shows "process_aircraft_data rounding (Mapping m) (self, env) =
     (Inl (first_exn (filters self) (map snd m)),
      (self\<lparr>stats := failed_stats (filters self) (map snd m) (stats self)\<rparr>, env))"
proof -
  have fl: "filter_loop (map snd m) s [] =
      (Inl (first_exn (filters self) (map snd m)),
       s\<lparr>stats := foldl (\<lambda>st a. count_rejection (first_failing_check (filters self) a) st)
                        (stats s) (good_prefix (filters self) (map snd m))\<rparr>)"
    if "filters s = filters self" for s :: "'a data_processor"
    using assms that by (simp add: filter_loop_eq)
  show ?thesis
    by (simp add: process_aircraft_data_def fl failed_stats_def Let_def)
qed

lemma process_non_mapping:
  "process_aircraft_data rounding (NonMapping t) (self, env) =
     (Inl (Exception ''AttributeError''),
      (self\<lparr>stats := (stats self)\<lparr>payloads_processed := payloads_processed (stats self) + 1\<rparr>\<rparr>,
       env))"
  by (simp add: process_aircraft_data_def)

section \<open>Properties of the filter engine\<close>

text \<open>
  Example inputs: the record of the end-to-end scenario, a batch of two records, a
  batch whose record has a string for altitude, and two test consumers.
\<close>

definition ex_ac1 :: aircraft where
  "ex_ac1 = \<lparr>adshex = Val ''AC1'', lat = Val 51.5, lon = Val (- 0.1), altitude = Val (Feet 5000),
             is_on_ground = Val False, vert_rate = Absent, heading = Absent,
             speed = Absent\<rparr>"

definition ex_batch :: payload where
  "ex_batch = Mapping [(''AC1'', Dict ex_ac1),
                       (''AC2'', Dict (ex_ac1\<lparr>is_on_ground := Val True\<rparr>))]"

definition ex_bad_batch :: payload where
  "ex_bad_batch = Mapping [(''AC3'', Dict (ex_ac1\<lparr>altitude := Val NonNumeric\<rparr>))]"

definition logger :: "string \<Rightarrow> (string list) callback" where
  "logger tag accepted w = (Inr (), w @ [tag])"

definition failing :: "string \<Rightarrow> (string list) callback" where
  "failing tag accepted w = (Inl (Exception ''boom''), w @ [tag])"

text \<open>
  C5 (filter determinism). For every record the verdict of \<open>passes_filters\<close> is decided
  by the first failing check in the order coordinates, not on ground, altitude present,
  minimum, maximum, and only a rejection by the on-ground check or by the minimum check
  increments a counter, by exactly one. (The one record outside the data model, which
  reaches a threshold with an altitude that is not a number, raises TypeError and
  counts nothing.) So a record missing a coordinate is rejected whatever its other
  fields are and leaves the statistics as they were; a record with coordinates and the
  on-ground flag set increments only the ground-filtered counter; a record that reaches
  the minimum check with an altitude strictly below the minimum increments only the
  low-altitude counter; and a record that passes all five checks, in a batch on which
  the filter does not raise, is in the list the batch operation returns.
\<close>

theorem filter_determinism:
  fixes self :: "'w data_processor" and a :: aircraft
  defines "cfg \<equiv> filters self"
  defines "res \<equiv> passes_filters a self"
  shows "res = (if type_error cfg a then (Inl (Exception ''TypeError''), self)
                else (Inr (first_failing_check cfg a = None),
                      self\<lparr>stats := count_rejection (first_failing_check cfg a) (stats self)\<rparr>)) \<and>
         (dict_get (lat a) = None \<or> dict_get (lon a) = None \<longrightarrow> res = (Inr False, self)) \<and>
         (dict_get (lat a) \<noteq> None \<and> dict_get (lon a) \<noteq> None \<and> is_on_ground a = Val True \<longrightarrow>
            fst res = Inr False \<and>
            stats (snd res) = (stats self)\<lparr>ground_filtered := ground_filtered (stats self) + 1\<rparr>) \<and>
         (dict_get (lat a) \<noteq> None \<and> dict_get (lon a) \<noteq> None \<and> is_on_ground a \<noteq> Val True \<and>
          altitude a = Val (Feet x) \<and> min_altitude cfg = Some lo \<and> x < lo \<longrightarrow>
            fst res = Inr False \<and>
            stats (snd res) = (stats self)\<lparr>low_altitude_filtered :=
                                             low_altitude_filtered (stats self) + 1\<rparr>) \<and>
         (first_failing_check cfg a = None \<and> Dict a \<in> set (map snd m) \<and>
          (\<forall>v \<in> set (map snd m). \<not> raises_on cfg v) \<longrightarrow>
            (\<exists>accepted. fst (process_aircraft_data rounding (Mapping m) (self, env)) = Inr accepted
                        \<and> a \<in> set accepted))"
proof -
  have v: "res = (if type_error cfg a then (Inl (Exception ''TypeError''), self)
                  else (Inr (first_failing_check cfg a = None),
                        self\<lparr>stats := count_rejection (first_failing_check cfg a) (stats self)\<rparr>))"
    unfolding res_def cfg_def by (rule passes_filters_verdict)
  have c1: "first_failing_check cfg a = Some Coordinates \<and> \<not> type_error cfg a"
    if "dict_get (lat a) = None \<or> dict_get (lon a) = None"
    using that by (auto simp: first_failing_check_def type_error_def)
  have c2: "first_failing_check cfg a = Some NotOnGround \<and> \<not> type_error cfg a"
    if "dict_get (lat a) \<noteq> None \<and> dict_get (lon a) \<noteq> None \<and> is_on_ground a = Val True"
    using that by (auto simp: first_failing_check_def type_error_def)
  have c4: "first_failing_check cfg a = Some AltitudeMin \<and> \<not> type_error cfg a"
    if "dict_get (lat a) \<noteq> None \<and> dict_get (lon a) \<noteq> None \<and> is_on_ground a \<noteq> Val True \<and>
        altitude a = Val (Feet x) \<and> min_altitude cfg = Some lo \<and> x < lo"
    using that by (auto simp: first_failing_check_def type_error_def)
  have c6: "\<exists>accepted. fst (process_aircraft_data rounding (Mapping m) (self, env)) = Inr accepted
                        \<and> a \<in> set accepted"
    if h: "first_failing_check cfg a = None \<and> Dict a \<in> set (map snd m) \<and>
        (\<forall>v \<in> set (map snd m). \<not> raises_on cfg v)"
  proof -
    have "a \<in> set (dicts vs)" if "Dict a \<in> set vs" for vs
      using that by (induction vs rule: dicts.induct) auto
    with h have "a \<in> set (dicts (map snd m))" by blast
    with h show ?thesis by (simp add: process_mapping accepted_by_def cfg_def)
  qed
  from v c1 c2 c4 c6 show ?thesis by simp
qed

theorem filter_determinism_witness:
  "passes_filters (ex_ac1\<lparr>lat := Null, is_on_ground := Val True\<rparr>) (init_data_processor None)
     = (Inr False, init_data_processor None :: unit data_processor) \<and>
   ground_filtered (stats (snd (passes_filters (ex_ac1\<lparr>is_on_ground := Val True\<rparr>)
       (init_data_processor None :: unit data_processor)))) = 1 \<and>
   low_altitude_filtered (stats (snd (passes_filters (ex_ac1\<lparr>altitude := Val (Feet 50)\<rparr>)
       (init_data_processor None :: unit data_processor)))) = 1 \<and>
   (\<exists>accepted. fst (process_aircraft_data id (Mapping [(''AC1'', Dict ex_ac1)])
                      (init_data_processor None :: unit data_processor, ((), []))) = Inr accepted
               \<and> ex_ac1 \<in> set accepted)"
  using filter_determinism [where a = "ex_ac1\<lparr>lat := Null, is_on_ground := Val True\<rparr>"
          and self = "init_data_processor None :: unit data_processor"]
        filter_determinism [where a = "ex_ac1\<lparr>is_on_ground := Val True\<rparr>"
          and self = "init_data_processor None :: unit data_processor"]
        filter_determinism [where a = "ex_ac1\<lparr>altitude := Val (Feet 50)\<rparr>" and x = 50 and lo = 100
          and self = "init_data_processor None :: unit data_processor"]
        filter_determinism [where a = ex_ac1 and m = "[(''AC1'', Dict ex_ac1)]" and rounding = id
          and env = "((), [])" and self = "init_data_processor None :: unit data_processor"]
  by (simp add: ex_ac1_def init_data_processor_def default_filters_def first_failing_check_def
      type_error_def Let_def)

lemma batch_stats_counters:
  "payloads_processed (batch_stats rounding cfg xs st) = payloads_processed st + 1"
  "total_aircraft (batch_stats rounding cfg xs st) = total_aircraft st + int (length xs)"
  "filtered_aircraft (batch_stats rounding cfg xs st) =
     filtered_aircraft st + int (length (filter (accepted_by cfg) xs))"
  "ground_filtered (batch_stats rounding cfg xs st) =
     ground_filtered st
       + int (length (filter (\<lambda>a. first_failing_check cfg a = Some NotOnGround) xs))"
  "low_altitude_filtered (batch_stats rounding cfg xs st) =
     low_altitude_filtered st
       + int (length (filter (\<lambda>a. first_failing_check cfg a = Some AltitudeMin) xs))"
  "filter_pass_rate (batch_stats rounding cfg xs st) =
     (if total_aircraft st + int (length xs) > 0
      then rounding (real_of_int (filtered_aircraft st + int (length (filter (accepted_by cfg) xs)))
                      / real_of_int (total_aircraft st + int (length xs)) * 100)
      else filter_pass_rate st)"
  by (simp_all add: batch_stats_def Let_def foldl_count_rejection)

lemma failed_stats_counters:
  "payloads_processed (failed_stats cfg vs st) = payloads_processed st + 1"
  "total_aircraft (failed_stats cfg vs st) = total_aircraft st + int (length vs)"
  "filtered_aircraft (failed_stats cfg vs st) = filtered_aircraft st"
  "ground_filtered (failed_stats cfg vs st) =
     ground_filtered st
       + int (length (filter (\<lambda>a. first_failing_check cfg a = Some NotOnGround)
                         (good_prefix cfg vs)))"
  "low_altitude_filtered (failed_stats cfg vs st) =
     low_altitude_filtered st
       + int (length (filter (\<lambda>a. first_failing_check cfg a = Some AltitudeMin)
                         (good_prefix cfg vs)))"
  "filter_pass_rate (failed_stats cfg vs st) = filter_pass_rate st"
  by (simp_all add: failed_stats_def foldl_count_rejection)

text \<open>
  What every reachable processor satisfies, also after operations that raised: the
  total is not negative, and the pass rate is 0 while the total is 0.
\<close>

definition rate_zero :: "filter_stats \<Rightarrow> bool" where
  "rate_zero st \<longleftrightarrow>
     0 \<le> total_aircraft st \<and> (total_aircraft st = 0 \<longrightarrow> filter_pass_rate st = 0)"

lemma process_stats_cases:
  assumes "process_aircraft_data rounding aircraft_dict (self, env) = (r, (self', env'))"
  shows "(\<exists>xs. stats self' = batch_stats rounding (filters self) xs (stats self) \<and>
               (\<exists>accepted. r = Inr accepted)) \<or>
         (\<exists>vs. stats self' = failed_stats (filters self) vs (stats self) \<and> (\<exists>e. r = Inl e)) \<or>
         (stats self' = (stats self)\<lparr>payloads_processed := payloads_processed (stats self) + 1\<rparr>
            \<and> (\<exists>e. r = Inl e))"
proof (cases aircraft_dict)
  case (NonMapping t)
  with assms show ?thesis by (auto simp: process_non_mapping)
next
  case (Mapping m)
  show ?thesis
  proof (cases "\<forall>v \<in> set (map snd m). \<not> raises_on (filters self) v")
    case True
    from assms show ?thesis
      unfolding Mapping process_mapping [OF True] by auto
  next
    case False
    from assms show ?thesis
      unfolding Mapping process_mapping_raises [OF False] by auto
  qed
qed

lemma rate_zero_step:
  assumes "rate_zero (stats self)"
    and "process_aircraft_data rounding aircraft_dict (self, env) = (r, (self', env'))"
  shows "rate_zero (stats self')"
proof -
  from assms(1) have t: "0 \<le> total_aircraft (stats self)"
    and z: "total_aircraft (stats self) = 0 \<longrightarrow> filter_pass_rate (stats self) = 0"
    by (simp_all add: rate_zero_def)
  from process_stats_cases [OF assms(2)] show ?thesis
  proof (elim disjE exE conjE)
    fix xs accepted
    assume s: "stats self' = batch_stats rounding (filters self) xs (stats self)"
    show ?thesis
    proof (cases "total_aircraft (stats self) + int (length xs) > 0")
      case True
      with t show ?thesis by (simp add: rate_zero_def s batch_stats_counters)
    next
      case False
      with t have "total_aircraft (stats self) = 0" and "length xs = 0" by linarith+
      with z show ?thesis by (simp add: rate_zero_def s batch_stats_counters)
    qed
  next
    fix vs e
    assume s: "stats self' = failed_stats (filters self) vs (stats self)"
    have "total_aircraft (stats self) = 0"
      if "total_aircraft (stats self) + int (length vs) = 0"
      using that t by linarith
    with t z show ?thesis by (auto simp: rate_zero_def s failed_stats_counters)
  next
    fix e
    assume "stats self' = (stats self)\<lparr>payloads_processed := payloads_processed (stats self) + 1\<rparr>"
    with t z show ?thesis by (simp add: rate_zero_def)
  qed
qed

lemma reachable_step:
  "reachable rounding self \<Longrightarrow>
   reachable rounding (fst (snd (process_aircraft_data rounding aircraft_dict (self, env))))"
  by (metis reachable.process prod.collapse)

lemma reachable_rate_zero:
  "reachable rounding self \<Longrightarrow> rate_zero (stats self)"
proof (induction rule: reachable.induct)
  case (init arg)
  show ?case by (simp add: init_data_processor_def Let_def rate_zero_def)
next
  case (process self aircraft_dict env r self' env')
  from process.IH process.hyps(2) show ?case by (rule rate_zero_step)
next
  case (update self new_filters)
  then show ?case by (simp add: update_filters_def Let_def rate_zero_def)
next
  case (add self callback)
  then show ?case by (simp add: add_callback_def rate_zero_def)
qed

text \<open>
  The processor of the examples after a first batch with the one record AC1, and after
  a second batch whose record has a string for altitude.
\<close>

definition ex_first :: "unit data_processor" where
  "ex_first = fst (snd (process_aircraft_data nearest_tenth (Mapping [(''AC1'', Dict ex_ac1)])
                          (init_data_processor None, ((), []))))"

definition ex_stale :: "unit data_processor" where
  "ex_stale = fst (snd (process_aircraft_data nearest_tenth ex_bad_batch (ex_first, ((), []))))"

lemma ex_first_stats:
  "stats ex_first = \<lparr>total_aircraft = 1, filtered_aircraft = 1, ground_filtered = 0,
        low_altitude_filtered = 0, payloads_processed = 1, filter_pass_rate = 100,
        current_filters = default_filters\<rparr>"
  "filters ex_first = default_filters"
  by (simp_all add: ex_first_def process_aircraft_data_def ex_ac1_def init_data_processor_def
      Let_def passes_filters_def default_filters_def nearest_tenth_def)

text \<open>
  C6, as stated, on a processor that has taken the batch with the record AC1 (total 1,
  passed 1, rate 100) and then a batch whose one record has a string for altitude. The
  second batch operation raises TypeError in the filter loop, after the total was
  incremented and before the rate is computed again: the total is 2, one record has
  passed, and the rate is still 100, where passed/total * 100 rounded to one decimal is
  50.
\<close>

theorem stale_pass_rate_counterexample:
  "fst (process_aircraft_data nearest_tenth ex_bad_batch (ex_first, ((), [])))
     = Inl (Exception ''TypeError'') \<and>
   total_aircraft (stats ex_stale) = 2 \<and>
   filtered_aircraft (stats ex_stale) = 1 \<and>
   filter_pass_rate (stats ex_stale) = 100 \<and>
   nearest_tenth (real_of_int (filtered_aircraft (stats ex_stale))
                    / real_of_int (total_aircraft (stats ex_stale)) * 100) = 50"
proof -
  have p: "process_aircraft_data nearest_tenth ex_bad_batch (ex_first, ((), []))
      = (Inl (Exception ''TypeError''),
         (ex_first\<lparr>stats := (stats ex_first)\<lparr>payloads_processed := 2, total_aircraft := 2\<rparr>\<rparr>,
          ((), [])))"
    by (simp add: process_aircraft_data_def ex_bad_batch_def ex_ac1_def Let_def
        passes_filters_def ex_first_stats default_filters_def)
  then show ?thesis
    by (simp add: ex_stale_def ex_first_stats nearest_tenth_def)
qed

text \<open>
  C6, amended. For a processor reached by any sequence of operations, whether they
  returned or raised, a further batch operation decreases none of the five counters,
  and afterwards the pass rate is 0 if the total is 0. If the batch operation returns
  and the total is not 0, the pass rate is the rounding of passed/total * 100, which
  for a rounding to one decimal place is a whole number of tenths within 0.05 of
  passed/total * 100.
\<close>

theorem filter_stats_invariant_on_return:
  assumes "reachable rounding self"
    and "rounds_to_one_decimal rounding"
    and "process_aircraft_data rounding aircraft_dict (self, env) = (r, (self', env'))"
  shows "payloads_processed (stats self) \<le> payloads_processed (stats self') \<and>
         total_aircraft (stats self) \<le> total_aircraft (stats self') \<and>
         filtered_aircraft (stats self) \<le> filtered_aircraft (stats self') \<and>
         ground_filtered (stats self) \<le> ground_filtered (stats self') \<and>
         low_altitude_filtered (stats self) \<le> low_altitude_filtered (stats self') \<and>
         (total_aircraft (stats self') = 0 \<longrightarrow> filter_pass_rate (stats self') = 0) \<and>
         (r = Inr accepted \<and> total_aircraft (stats self') \<noteq> 0 \<longrightarrow>
            filter_pass_rate (stats self') =
              rounding (real_of_int (filtered_aircraft (stats self'))
                          / real_of_int (total_aircraft (stats self')) * 100) \<and>
            (\<exists>n :: int. filter_pass_rate (stats self') = real_of_int n / 10) \<and>
            \<bar>filter_pass_rate (stats self')
               - real_of_int (filtered_aircraft (stats self'))
                   / real_of_int (total_aircraft (stats self')) * 100\<bar> \<le> 1 / 20)"
proof -
  from assms(1) have inv: "rate_zero (stats self)" by (rule reachable_rate_zero)
  then have t: "0 \<le> total_aircraft (stats self)" by (simp add: rate_zero_def)
  from inv assms(3) have inv': "rate_zero (stats self')" by (rule rate_zero_step)
  have mono: "payloads_processed (stats self) \<le> payloads_processed (stats self') \<and>
         total_aircraft (stats self) \<le> total_aircraft (stats self') \<and>
         filtered_aircraft (stats self) \<le> filtered_aircraft (stats self') \<and>
         ground_filtered (stats self) \<le> ground_filtered (stats self') \<and>
         low_altitude_filtered (stats self) \<le> low_altitude_filtered (stats self')"
    using process_stats_cases [OF assms(3)]
    by (auto simp: batch_stats_counters failed_stats_counters)
  have rate: "filter_pass_rate (stats self') =
              rounding (real_of_int (filtered_aircraft (stats self'))
                          / real_of_int (total_aircraft (stats self')) * 100)"
    if "r = Inr accepted" and nz: "total_aircraft (stats self') \<noteq> 0"
  proof -
    from process_stats_cases [OF assms(3)] that(1) obtain xs
      where s: "stats self' = batch_stats rounding (filters self) xs (stats self)" by auto
    from nz t have "total_aircraft (stats self) + int (length xs) > 0"
      by (simp add: s batch_stats_counters)
    then show ?thesis by (simp add: s batch_stats_counters)
  qed
  from assms(2) have dec: "(\<exists>n :: int. rounding x = real_of_int n / 10) \<and> \<bar>rounding x - x\<bar> \<le> 1 / 20"
    for x by (simp add: rounds_to_one_decimal_def)
  have "(\<exists>n :: int. filter_pass_rate (stats self') = real_of_int n / 10) \<and>
        \<bar>filter_pass_rate (stats self')
           - real_of_int (filtered_aircraft (stats self'))
               / real_of_int (total_aircraft (stats self')) * 100\<bar> \<le> 1 / 20"
    if "r = Inr accepted" and "total_aircraft (stats self') \<noteq> 0"
    using rate [OF that]
      dec [of "real_of_int (filtered_aircraft (stats self'))
                 / real_of_int (total_aircraft (stats self')) * 100"]
    by simp
  with mono inv' rate show ?thesis by (simp add: rate_zero_def)
qed

theorem filter_stats_invariant_on_return_witness:
  "reachable nearest_tenth ex_stale \<and> rounds_to_one_decimal nearest_tenth \<and>
   fst (process_aircraft_data nearest_tenth ex_batch (ex_stale, ((), []))) = Inr [ex_ac1] \<and>
   total_aircraft (stats (fst (snd (process_aircraft_data nearest_tenth ex_batch
                                      (ex_stale, ((), [])))))) = 4 \<and>
   filtered_aircraft (stats (fst (snd (process_aircraft_data nearest_tenth ex_batch
                                      (ex_stale, ((), [])))))) = 2 \<and>
   filter_pass_rate (stats (fst (snd (process_aircraft_data nearest_tenth ex_batch
                                      (ex_stale, ((), [])))))) = nearest_tenth (2 / 4 * 100) \<and>
   total_aircraft (stats (fst (snd (process_aircraft_data nearest_tenth (Mapping [])
       (init_data_processor None :: unit data_processor, ((), [])))))) = 0 \<and>
   filter_pass_rate (stats (fst (snd (process_aircraft_data nearest_tenth (Mapping [])
       (init_data_processor None :: unit data_processor, ((), [])))))) = 0"
proof -
  have r0: "reachable nearest_tenth (init_data_processor None :: unit data_processor)"
    by (rule reachable.init)
  have p0: "process_aircraft_data nearest_tenth (Mapping [])
              (init_data_processor None :: unit data_processor, ((), []))
            = (fst (process_aircraft_data nearest_tenth (Mapping [])
                     (init_data_processor None :: unit data_processor, ((), []))),
               (fst (snd (process_aircraft_data nearest_tenth (Mapping [])
                     (init_data_processor None :: unit data_processor, ((), [])))),
                snd (snd (process_aircraft_data nearest_tenth (Mapping [])
                     (init_data_processor None :: unit data_processor, ((), []))))))"
    by simp
  have t0: "total_aircraft (stats (fst (snd (process_aircraft_data nearest_tenth (Mapping [])
       (init_data_processor None :: unit data_processor, ((), [])))))) = 0"
    by (simp add: process_aircraft_data_def init_data_processor_def Let_def)
  from filter_stats_invariant_on_return [OF r0 nearest_tenth_rounds p0] t0
  have z: "filter_pass_rate (stats (fst (snd (process_aircraft_data nearest_tenth (Mapping [])
       (init_data_processor None :: unit data_processor, ((), [])))))) = 0"
    by blast
  from r0 have "reachable nearest_tenth ex_first"
    unfolding ex_first_def by (rule reachable_step)
  then have r: "reachable nearest_tenth ex_stale"
    unfolding ex_stale_def by (rule reachable_step)
  have st: "stats ex_stale = (stats ex_first)\<lparr>payloads_processed := 2, total_aircraft := 2\<rparr>"
    "filters ex_stale = default_filters"
    by (simp_all add: ex_stale_def process_aircraft_data_def ex_bad_batch_def ex_ac1_def Let_def
        passes_filters_def ex_first_stats default_filters_def)
  have acc: "accepted_by default_filters ex_ac1"
    "\<not> accepted_by default_filters (ex_ac1\<lparr>is_on_ground := Val True\<rparr>)"
    by (simp_all add: accepted_by_def first_failing_check_def ex_ac1_def default_filters_def)
  have good: "\<forall>v \<in> set (map snd [(''AC1'', Dict ex_ac1),
                  (''AC2'', Dict (ex_ac1\<lparr>is_on_ground := Val True\<rparr>))]).
                \<not> raises_on (filters ex_stale) v"
    by (simp add: type_error_def ex_ac1_def)
  define self' where "self' = fst (snd (process_aircraft_data nearest_tenth ex_batch
                                         (ex_stale, ((), []))))"
  define env' where "env' = snd (snd (process_aircraft_data nearest_tenth ex_batch
                                         (ex_stale, ((), []))))"
  have p: "process_aircraft_data nearest_tenth ex_batch (ex_stale, ((), []))
          = (Inr [ex_ac1], (self', env'))"
    unfolding self'_def env'_def ex_batch_def process_mapping [OF good]
    by (simp add: st acc)
  have s: "total_aircraft (stats self') = 4" "filtered_aircraft (stats self') = 2"
    unfolding self'_def ex_batch_def process_mapping [OF good]
    by (simp_all add: st acc batch_stats_counters ex_first_stats)
  from filter_stats_invariant_on_return [OF r nearest_tenth_rounds p, of "[ex_ac1]"] s
  have rate: "filter_pass_rate (stats self') = nearest_tenth (2 / 4 * 100)" by simp
  have f: "fst (process_aircraft_data nearest_tenth ex_batch (ex_stale, ((), []))) = Inr [ex_ac1]"
    unfolding ex_batch_def process_mapping [OF good] by (simp add: st acc)
  from r nearest_tenth_rounds f s rate t0 z show ?thesis by (simp add: self'_def)
qed

text \<open>
  C8 (consumer callback isolation). A batch operation on a mapping on which the filter
  does not raise returns the accepted list normally, whatever the consumers do. When
  the accepted list is not empty the consumers' state afterwards is the result of
  running every registered consumer once on the accepted list, in list order, each on
  the state the previous one left, whether or not it raised; each failure adds one line
  to the output. When the accepted list is empty neither the consumers' state nor the
  output changes. When the filter raises there is no accepted list: the operation
  raises and no consumer is called. Registration appends to the list.
\<close>

theorem consumer_callback_isolation:
  assumes "process_aircraft_data rounding (Mapping m) (self, (w, out)) = (r, (self', (w', out')))"
    and "accepted = filter (accepted_by (filters self)) (dicts (map snd m))"
  shows "((\<forall>v \<in> set (map snd m). \<not> raises_on (filters self) v) \<longrightarrow>
            r = Inr accepted \<and>
            (accepted \<noteq> [] \<longrightarrow>
               (w', out') = deliver (callbacks self) accepted (w, out) \<and>
               w' = foldl (\<lambda>w consumer. snd (consumer accepted w)) w (callbacks self)) \<and>
            (accepted = [] \<longrightarrow> w' = w \<and> out' = out)) \<and>
         (\<not> (\<forall>v \<in> set (map snd m). \<not> raises_on (filters self) v) \<longrightarrow>
            r = Inl (first_exn (filters self) (map snd m)) \<and> w' = w \<and> out' = out) \<and>
         callbacks (add_callback consumer self) = callbacks self @ [consumer]"
proof (intro conjI impI)
  assume good: "\<forall>v \<in> set (map snd m). \<not> raises_on (filters self) v"
  from assms(1) have "(r, (self', (w', out'))) =
      (Inr (filter (accepted_by (filters self)) (dicts (map snd m))),
       (self\<lparr>stats := batch_stats rounding (filters self) (dicts (map snd m)) (stats self)\<rparr>,
        if filter (accepted_by (filters self)) (dicts (map snd m)) \<noteq> []
        then deliver (callbacks self) (filter (accepted_by (filters self)) (dicts (map snd m)))
               (w, out)
        else (w, out)))"
    by (simp only: process_mapping [OF good])
  with assms(2) have r: "r = Inr accepted"
    and env: "(w', out') = (if accepted \<noteq> [] then deliver (callbacks self) accepted (w, out)
                            else (w, out))"
    by simp_all
  from r show "r = Inr accepted" .
  {
    assume ne: "accepted \<noteq> []"
    with env show d: "(w', out') = deliver (callbacks self) accepted (w, out)" by simp
    then have "fst (deliver (callbacks self) accepted (w, out)) = w'" by (metis fst_conv)
    then show "w' = foldl (\<lambda>w consumer. snd (consumer accepted w)) w (callbacks self)"
      by (simp only: deliver_world)
  }
  {
    assume "accepted = []"
    with env show "w' = w" and "out' = out" by simp_all
  }
next
  assume bad: "\<not> (\<forall>v \<in> set (map snd m). \<not> raises_on (filters self) v)"
  from assms(1) show "r = Inl (first_exn (filters self) (map snd m))" and "w' = w" and "out' = out"
    by (simp_all add: process_mapping_raises [OF bad])
next
  show "callbacks (add_callback consumer self) = callbacks self @ [consumer]"
    by (simp add: add_callback_def)
qed

definition ex_processor :: "(string list) data_processor" where
  "ex_processor = add_callback (logger ''third'')
                   (add_callback (failing ''second'')
                     (add_callback (logger ''first'') (init_data_processor None)))"

theorem consumer_callback_isolation_witness:
  "process_aircraft_data id ex_batch (ex_processor, ([], []))
     = (Inr [ex_ac1],
        (ex_processor\<lparr>stats := batch_stats id default_filters
             [ex_ac1, ex_ac1\<lparr>is_on_ground := Val True\<rparr>] (stats ex_processor)\<rparr>,
         ([''first'', ''second'', ''third''], [''Callback error: boom'']))) \<and>
   fst (process_aircraft_data id ex_bad_batch (ex_processor, ([], [])))
     = Inl (Exception ''TypeError'') \<and>
   snd (snd (process_aircraft_data id ex_bad_batch (ex_processor, ([], [])))) = ([], [])"
proof -
  have acc: "accepted_by default_filters ex_ac1"
    "\<not> accepted_by default_filters (ex_ac1\<lparr>is_on_ground := Val True\<rparr>)"
    by (simp_all add: accepted_by_def first_failing_check_def ex_ac1_def default_filters_def)
  have te: "\<not> type_error default_filters ex_ac1"
    "\<not> type_error default_filters (ex_ac1\<lparr>is_on_ground := Val True\<rparr>)"
    by (simp_all add: type_error_def ex_ac1_def)
  have f: "filters ex_processor = default_filters"
    by (simp add: ex_processor_def add_callback_def init_data_processor_def Let_def)
  have c: "callbacks ex_processor = [logger ''first'', failing ''second'', logger ''third'']"
    by (simp add: ex_processor_def add_callback_def init_data_processor_def Let_def)
  obtain r self' w' out' where
    p: "process_aircraft_data id
          (Mapping [(''AC1'', Dict ex_ac1), (''AC2'', Dict (ex_ac1\<lparr>is_on_ground := Val True\<rparr>))])
          (ex_processor, ([], [])) = (r, (self', (w', out')))"
    by (metis surj_pair)
  have s: "self' = ex_processor\<lparr>stats := batch_stats id default_filters
             [ex_ac1, ex_ac1\<lparr>is_on_ground := Val True\<rparr>] (stats ex_processor)\<rparr>"
    using p by (simp add: process_mapping f te)
  from consumer_callback_isolation [OF p refl, of "logger ''x''"]
  have "r = Inr [ex_ac1]" and "(w', out') = ([''first'', ''second'', ''third''], [''Callback error: boom''])"
    by (simp_all add: f acc te c logger_def failing_def)
  with p s have good: "process_aircraft_data id ex_batch (ex_processor, ([], []))
     = (Inr [ex_ac1],
        (ex_processor\<lparr>stats := batch_stats id default_filters
             [ex_ac1, ex_ac1\<lparr>is_on_ground := Val True\<rparr>] (stats ex_processor)\<rparr>,
         ([''first'', ''second'', ''third''], [''Callback error: boom''])))"
    by (simp add: ex_batch_def)
  obtain rb selfb wb outb where
    pb: "process_aircraft_data id (Mapping [(''AC3'', Dict (ex_ac1\<lparr>altitude := Val NonNumeric\<rparr>))])
          (ex_processor, ([], [])) = (rb, (selfb, (wb, outb)))"
    by (metis surj_pair)
  from consumer_callback_isolation [OF pb refl, of "logger ''x''"]
  have "rb = Inl (Exception ''TypeError'')" and "wb = []" and "outb = []"
    by (simp_all add: f type_error_def ex_ac1_def default_filters_def)
  with pb have bad: "fst (process_aircraft_data id ex_bad_batch (ex_processor, ([], [])))
     = Inl (Exception ''TypeError'')"
    "snd (snd (process_aircraft_data id ex_bad_batch (ex_processor, ([], [])))) = ([], [])"
    by (simp_all add: ex_bad_batch_def)
  from good bad show ?thesis by simp
qed

section \<open>The aircraft cache (kmz\_generator.py)\<close>

text \<open>
  A cache entry is the dict \<^verbatim>\<open>minimal_aircraft\<close>. The database is a Python dict from
  aircraft id to such a dict object. The sweep writes \<^verbatim>\<open>age_seconds\<close> into the objects
  in place and \<^verbatim>\<open>get_current_aircraft\<close> hands the same objects out, so the objects live
  in an explicit store: \<open>heap\<close> maps an address to the object there, \<open>next_address\<close>
  is the first unused address, and the database is the association list of the dict,
  in insertion order, from id to address. Times are \<^verbatim>\<open>time.time()\<close> floats, modelled
  as real numbers; the clock reading of an update is the argument \<open>current_time\<close>. The
  lock and the field \<^verbatim>\<open>last_update_time\<close>, which nothing here reads, are left out.
\<close>

record cache_entry =
  entry_adshex :: string
  entry_lat :: "real option"
  entry_lon :: "real option"
  entry_altitude :: "altitude_value option"
  entry_vert_rate :: "int option"
  entry_heading :: "real option"
  entry_speed :: "real option"
  last_seen_timestamp :: real
  age_seconds :: real

record kmz_generator =
  refresh_interval :: int
  persistence_time :: int
  aircraft_database :: "(string \<times> nat) list"
  heap :: "nat \<Rightarrow> cache_entry"
  next_address :: nat

text \<open>\<^verbatim>\<open>__init__\<close>: an empty database; no object has been allocated.\<close>

definition empty_entry :: cache_entry where
  "empty_entry = \<lparr>entry_adshex = [], entry_lat = None, entry_lon = None, entry_altitude = None,
                  entry_vert_rate = None, entry_heading = None, entry_speed = None,
                  last_seen_timestamp = 0, age_seconds = 0\<rparr>"

definition init_kmz_generator :: "int \<Rightarrow> int \<Rightarrow> kmz_generator" where
  "init_kmz_generator refresh persistence =
     \<lparr>refresh_interval = refresh, persistence_time = persistence,
      aircraft_database = [], heap = (\<lambda>a. empty_entry), next_address = 0\<rparr>"

text \<open>
  The body of the loop \<^verbatim>\<open>for aircraft in aircraft_list\<close>: a record whose id is
  \<^verbatim>\<open>None\<close> or empty is skipped (\<^verbatim>\<open>if not aircraft_id: continue\<close>); otherwise a new
  dict object is built and assigned to \<^verbatim>\<open>aircraft_database[aircraft_id]\<close>. A dict
  assignment keeps the position of a key that is already there and appends a new key,
  which is what \<open>AList.update\<close> does.
\<close>

definition minimal_aircraft :: "string \<Rightarrow> aircraft \<Rightarrow> real \<Rightarrow> cache_entry" where
  "minimal_aircraft aircraft_id aircraft current_time =
     \<lparr>entry_adshex = aircraft_id,
      entry_lat = dict_get (lat aircraft),
      entry_lon = dict_get (lon aircraft),
      entry_altitude = dict_get_default (altitude aircraft) (Feet 0),
      entry_vert_rate = dict_get_default (vert_rate aircraft) 0,
      entry_heading = dict_get (heading aircraft),
      entry_speed = dict_get (speed aircraft),
      last_seen_timestamp = current_time,
      age_seconds = 0\<rparr>"

definition store_entry :: "string \<Rightarrow> cache_entry \<Rightarrow> kmz_generator \<Rightarrow> kmz_generator" where
  "store_entry aircraft_id entry self =
     self\<lparr>heap := (heap self)(next_address self := entry),
          aircraft_database := AList.update aircraft_id (next_address self) (aircraft_database self),
          next_address := next_address self + 1\<rparr>"

fun upsert_loop :: "aircraft list \<Rightarrow> real \<Rightarrow> kmz_generator \<Rightarrow> kmz_generator" where
  "upsert_loop [] current_time self = self"
| "upsert_loop (aircraft # rest) current_time self =
     (case dict_get (adshex aircraft) of
        None \<Rightarrow> upsert_loop rest current_time self
      | Some aircraft_id \<Rightarrow>
          if aircraft_id = [] then upsert_loop rest current_time self
          else upsert_loop rest current_time
                 (store_entry aircraft_id (minimal_aircraft aircraft_id aircraft current_time) self))"

text \<open>
  The loop over \<^verbatim>\<open>aircraft_database.items()\<close>: the age of every object is overwritten
  and the ids whose age exceeds the persistence time are collected.
\<close>

fun sweep_loop ::
  "(string \<times> nat) list \<Rightarrow> real \<Rightarrow> int \<Rightarrow> (nat \<Rightarrow> cache_entry) \<Rightarrow> string list
     \<Rightarrow> (nat \<Rightarrow> cache_entry) \<times> string list" where
  "sweep_loop [] current_time persistence h expired_aircraft = (h, expired_aircraft)"
| "sweep_loop ((aircraft_id, a) # items) current_time persistence h expired_aircraft =
     (let age = current_time - last_seen_timestamp (h a);
          h' = h(a := (h a)\<lparr>age_seconds := age\<rparr>)
      in sweep_loop items current_time persistence h'
           (if age > real_of_int persistence then expired_aircraft @ [aircraft_id]
            else expired_aircraft))"

text \<open>The loop \<^verbatim>\<open>for aircraft_id in expired_aircraft: del aircraft_database[aircraft_id]\<close>.\<close>

fun delete_loop :: "string list \<Rightarrow> (string \<times> nat) list \<Rightarrow> (string \<times> nat) list" where
  "delete_loop [] db = db"
| "delete_loop (aircraft_id # rest) db = delete_loop rest (AList.delete aircraft_id db)"

definition update_aircraft_data :: "aircraft list \<Rightarrow> real \<Rightarrow> kmz_generator \<Rightarrow> kmz_generator" where
  "update_aircraft_data aircraft_list current_time self =
     (let self1 = upsert_loop aircraft_list current_time self;
          (h, expired_aircraft) = sweep_loop (aircraft_database self1) current_time
                                    (persistence_time self1) (heap self1) []
      in self1\<lparr>heap := h,
               aircraft_database := delete_loop expired_aircraft (aircraft_database self1)\<rparr>)"

text \<open>
  \<^verbatim>\<open>get_current_aircraft\<close> returns a new list of the dict's values, that is of the
  objects themselves; \<open>read_entries\<close> reads the objects of such a list in a given state
  of the store.
\<close>

definition get_current_aircraft :: "kmz_generator \<Rightarrow> nat list" where
  "get_current_aircraft self = map snd (aircraft_database self)"

definition read_entries :: "kmz_generator \<Rightarrow> nat list \<Rightarrow> cache_entry list" where
  "read_entries self refs = map (heap self) refs"

text \<open>The cache of the end-to-end scenario after its first update, at time 1000.\<close>

definition ex_gen1 :: kmz_generator where
  "ex_gen1 = update_aircraft_data [ex_ac1] 1000 (init_kmz_generator 1 15)"


section \<open>Properties of the cache\<close>

text \<open>
  \<open>cache_id\<close> is the id under which a record is stored, if it is stored. A cache is
  well formed when no id occurs twice and every address in the database has been
  allocated; the empty cache is, and \<open>update_wf\<close> shows that every update keeps it so.
\<close>

definition cache_id :: "aircraft \<Rightarrow> string option" where
  "cache_id aircraft =
     (case dict_get (adshex aircraft) of
        None \<Rightarrow> None
      | Some aircraft_id \<Rightarrow> if aircraft_id = [] then None else Some aircraft_id)"

definition cache_wf :: "kmz_generator \<Rightarrow> bool" where
  "cache_wf self \<longleftrightarrow>
     distinct (map fst (aircraft_database self)) \<and>
     (\<forall>a \<in> snd ` set (aircraft_database self). a < next_address self)"

lemma upsert_loop_Cons:
  "upsert_loop (r # xs) t s =
     upsert_loop xs t (case cache_id r of None \<Rightarrow> s
                       | Some k \<Rightarrow> store_entry k (minimal_aircraft k r t) s)"
  by (simp add: cache_id_def split: option.splits)

lemma upsert_loop_append:
  "upsert_loop (xs @ ys) t s = upsert_loop ys t (upsert_loop xs t s)"
  by (induction xs arbitrary: s) (simp_all add: upsert_loop_Cons del: upsert_loop.simps(2))

lemma store_entry_fields:
  "persistence_time (store_entry k e s) = persistence_time s"
  "refresh_interval (store_entry k e s) = refresh_interval s"
  "next_address (store_entry k e s) = next_address s + 1"
  "heap (store_entry k e s) = (heap s)(next_address s := e)"
  "aircraft_database (store_entry k e s) = AList.update k (next_address s) (aircraft_database s)"
  by (simp_all add: store_entry_def)

lemma upsert_loop_frame:
  "persistence_time (upsert_loop xs t s) = persistence_time s \<and>
   refresh_interval (upsert_loop xs t s) = refresh_interval s \<and>
   next_address s \<le> next_address (upsert_loop xs t s) \<and>
   (\<forall>a < next_address s. heap (upsert_loop xs t s) a = heap s a)"
proof (induction xs arbitrary: s)
  case Nil
  show ?case by simp
next
  case (Cons r xs)
  show ?case
  proof (cases "cache_id r")
    case None
    with Cons.IH [of s] show ?thesis by (simp add: upsert_loop_Cons del: upsert_loop.simps(2))
  next
    case (Some k)
    with Cons.IH [of "store_entry k (minimal_aircraft k r t) s"] show ?thesis
      by (simp add: upsert_loop_Cons store_entry_fields del: upsert_loop.simps(2))
  qed
qed

lemma upsert_loop_wf:
  "cache_wf s \<Longrightarrow> cache_wf (upsert_loop xs t s)"
proof (induction xs arbitrary: s)
  case Nil
  then show ?case by simp
next
  case (Cons r xs)
  show ?case
  proof (cases "cache_id r")
    case None
    with Cons show ?thesis by (simp add: upsert_loop_Cons del: upsert_loop.simps(2))
  next
    case (Some k)
    have "set (AList.update k v al) \<subseteq> insert (k, v) (set al)" for v :: nat and al
      by (induction al) auto
    then have "snd ` set (AList.update k v al) \<subseteq> insert v (snd ` set al)" for v :: nat and al
      by force
    with Cons.prems have "cache_wf (store_entry k (minimal_aircraft k r t) s)"
      by (fastforce simp: cache_wf_def store_entry_fields distinct_update)
    from Cons.IH [OF this] Some show ?thesis
      by (simp add: upsert_loop_Cons del: upsert_loop.simps(2))
  qed
qed

lemma upsert_loop_other_key:
  "\<forall>r \<in> set xs. cache_id r \<noteq> Some k \<Longrightarrow>
   map_of (aircraft_database (upsert_loop xs t s)) k = map_of (aircraft_database s) k"
proof (induction xs arbitrary: s)
  case Nil
  show ?case by simp
next
  case (Cons r xs)
  show ?case
  proof (cases "cache_id r")
    case None
    with Cons show ?thesis by (simp add: upsert_loop_Cons del: upsert_loop.simps(2))
  next
    case (Some k')
    with Cons.prems have "k' \<noteq> k" by auto
    with Cons Some show ?thesis
      by (simp add: upsert_loop_Cons store_entry_fields update_conv' del: upsert_loop.simps(2))
  qed
qed

lemma upsert_loop_keys:
  "fst ` set (aircraft_database (upsert_loop xs t s)) =
     fst ` set (aircraft_database s) \<union> {k. \<exists>r \<in> set xs. cache_id r = Some k}"
proof (induction xs arbitrary: s)
  case Nil
  show ?case by simp
next
  case (Cons r xs)
  show ?case
  proof (cases "cache_id r")
    case None
    with Cons.IH [of s] show ?thesis by (simp add: upsert_loop_Cons del: upsert_loop.simps(2))
  next
    case (Some k)
    with Cons.IH [of "store_entry k (minimal_aircraft k r t) s"] show ?thesis
      by (auto simp: upsert_loop_Cons store_entry_fields dom_update simp del: upsert_loop.simps(2))
  qed
qed

lemma upsert_loop_last_record:
  fixes xs ys :: "aircraft list" and t :: real and s :: kmz_generator
  assumes "cache_id r = Some k" and "\<forall>r' \<in> set ys. cache_id r' \<noteq> Some k"
  defines "s0 \<equiv> upsert_loop xs t s"
  defines "s1 \<equiv> upsert_loop (xs @ r # ys) t s"
  shows "map_of (aircraft_database s1) k = Some (next_address s0) \<and>
         heap s1 (next_address s0) = minimal_aircraft k r t"
proof -
  let ?s = "store_entry k (minimal_aircraft k r t) s0"
  have s1: "s1 = upsert_loop ys t ?s"
    using assms(1) by (simp add: s1_def s0_def upsert_loop_append upsert_loop_Cons del: upsert_loop.simps(2))
  have "map_of (aircraft_database s1) k = map_of (aircraft_database ?s) k"
    unfolding s1 by (rule upsert_loop_other_key) (rule assms(2))
  moreover have "heap s1 (next_address s0) = heap ?s (next_address s0)"
    unfolding s1 using upsert_loop_frame [of ys t ?s] by (simp add: store_entry_fields)
  ultimately show ?thesis by (simp add: store_entry_fields update_conv')
qed

lemma sweep_loop_eq:
  "sweep_loop items t p h expired =
     (\<lambda>a. if a \<in> snd ` set items
           then (h a)\<lparr>age_seconds := t - last_seen_timestamp (h a)\<rparr> else h a,
      expired @ map fst (filter (\<lambda>(k, a). t - last_seen_timestamp (h a) > real_of_int p) items))"
proof (induction items arbitrary: h expired)
  case Nil
  show ?case by simp
next
  case (Cons item items)
  obtain k a where item: "item = (k, a)" by (cases item)
  let ?h = "h(a := (h a)\<lparr>age_seconds := t - last_seen_timestamp (h a)\<rparr>)"
  have ls: "last_seen_timestamp (?h b) = last_seen_timestamp (h b)" for b by simp
  have "(\<lambda>b. if b \<in> snd ` set items
              then (?h b)\<lparr>age_seconds := t - last_seen_timestamp (?h b)\<rparr> else ?h b)
        = (\<lambda>b. if b \<in> snd ` set (item # items)
              then (h b)\<lparr>age_seconds := t - last_seen_timestamp (h b)\<rparr> else h b)"
    by (rule ext) (simp add: item)
  then show ?case
    by (simp add: item Cons.IH Let_def ls del: fun_upd_apply)
qed

lemma delete_loop_eq: "delete_loop ks db = filter (\<lambda>(k, a). k \<notin> set ks) db"
proof (induction ks arbitrary: db)
  case Nil
  show ?case by simp
next
  case (Cons k ks)
  show ?case by (auto simp: Cons.IH AList.delete_eq intro: filter_cong)
qed


text \<open>The test of the sweep on one item of the database.\<close>

definition expired_in :: "real \<Rightarrow> kmz_generator \<Rightarrow> (string \<times> nat) \<Rightarrow> bool" where
  "expired_in t s = (\<lambda>(k, a). t - last_seen_timestamp (heap s a) > real_of_int (persistence_time s))"

lemma update_aircraft_data_eq:
  "update_aircraft_data xs t s =
     (let s1 = upsert_loop xs t s
      in s1\<lparr>heap := (\<lambda>a. if a \<in> snd ` set (aircraft_database s1)
                          then (heap s1 a)\<lparr>age_seconds := t - last_seen_timestamp (heap s1 a)\<rparr>
                          else heap s1 a),
             aircraft_database :=
               filter (\<lambda>(k, a). k \<notin> set (map fst (filter (expired_in t s1) (aircraft_database s1))))
                      (aircraft_database s1)\<rparr>)"
  by (simp add: update_aircraft_data_def sweep_loop_eq delete_loop_eq Let_def expired_in_def)

lemma update_fields:
  fixes xs t s
  defines "s1 \<equiv> upsert_loop xs t s"
  defines "s' \<equiv> update_aircraft_data xs t s"
  shows "persistence_time s' = persistence_time s"
    and "next_address s' = next_address s1"
    and "heap s' a = (if a \<in> snd ` set (aircraft_database s1)
                      then (heap s1 a)\<lparr>age_seconds := t - last_seen_timestamp (heap s1 a)\<rparr>
                      else heap s1 a)"
    and "aircraft_database s' =
           filter (\<lambda>(k, a). k \<notin> fst ` {e \<in> set (aircraft_database s1). expired_in t s1 e})
                  (aircraft_database s1)"
  using upsert_loop_frame [of xs t s]
  by (simp_all add: s'_def s1_def update_aircraft_data_eq Let_def)

lemma update_wf:
  assumes "cache_wf s"
  shows "cache_wf (update_aircraft_data xs t s)"
proof -
  from assms have wf1: "cache_wf (upsert_loop xs t s)" by (rule upsert_loop_wf)
  then show ?thesis
    unfolding cache_wf_def update_fields by (auto simp: distinct_map_filter)
qed

lemma update_remaining:
  assumes "(k, a) \<in> set (aircraft_database (update_aircraft_data xs t s))"
  shows "age_seconds (heap (update_aircraft_data xs t s) a)
           = t - last_seen_timestamp (heap (update_aircraft_data xs t s) a) \<and>
         age_seconds (heap (update_aircraft_data xs t s) a) \<le> real_of_int (persistence_time s)"
proof -
  let ?s1 = "upsert_loop xs t s"
  from assms have in1: "(k, a) \<in> set (aircraft_database ?s1)"
    and "k \<notin> fst ` {e \<in> set (aircraft_database ?s1). expired_in t ?s1 e}"
    by (simp_all add: update_fields)
  then have "\<not> expired_in t ?s1 (k, a)" by force
  moreover have "persistence_time ?s1 = persistence_time s"
    using upsert_loop_frame [of xs t s] by simp
  moreover from in1 have "a \<in> snd ` set (aircraft_database ?s1)" by force
  ultimately show ?thesis by (simp add: update_fields expired_in_def)
qed

lemma update_evicts:
  assumes wf: "cache_wf s" and "(k, a) \<in> set (aircraft_database s)"
    and "\<forall>r \<in> set xs. cache_id r \<noteq> Some k"
    and "t - last_seen_timestamp (heap s a) > real_of_int (persistence_time s)"
  shows "k \<notin> fst ` set (aircraft_database (update_aircraft_data xs t s))"
proof -
  let ?s1 = "upsert_loop xs t s"
  from wf assms(2) have "map_of (aircraft_database s) k = Some a" and "a < next_address s"
    by (auto simp: cache_wf_def)
  with assms(3) have "map_of (aircraft_database ?s1) k = Some a"
    by (simp add: upsert_loop_other_key)
  then have in1: "(k, a) \<in> set (aircraft_database ?s1)" by (rule map_of_SomeD)
  have "heap ?s1 a = heap s a" "persistence_time ?s1 = persistence_time s"
    using upsert_loop_frame [of xs t s] \<open>a < next_address s\<close> by simp_all
  with assms(4) have "expired_in t ?s1 (k, a)" by (simp add: expired_in_def)
  define E where "E = fst ` {e \<in> set (aircraft_database ?s1). expired_in t ?s1 e}"
  from in1 \<open>expired_in t ?s1 (k, a)\<close> have "k \<in> E" unfolding E_def by force
  moreover have "aircraft_database (update_aircraft_data xs t s)
                   = filter (\<lambda>(k, a). k \<notin> E) (aircraft_database ?s1)"
    by (simp add: update_fields E_def)
  ultimately show ?thesis by auto
qed

lemma update_refreshed:
  fixes xs ys :: "aircraft list" and t :: real
  assumes wf: "cache_wf s" and "cache_id r = Some k" and "\<forall>r' \<in> set ys. cache_id r' \<noteq> Some k"
  defines "s' \<equiv> update_aircraft_data (xs @ r # ys) t s"
  shows "(k, a) \<in> set (aircraft_database s') \<Longrightarrow> heap s' a = minimal_aircraft k r t"
    and "0 \<le> persistence_time s \<Longrightarrow> k \<in> fst ` set (aircraft_database s')"
proof -
  let ?s1 = "upsert_loop (xs @ r # ys) t s"
  let ?a0 = "next_address (upsert_loop xs t s)"
  from wf have wf1: "cache_wf ?s1" by (rule upsert_loop_wf)
  from upsert_loop_last_record [OF assms(2,3), of xs t s]
  have m: "map_of (aircraft_database ?s1) k = Some ?a0" and h: "heap ?s1 ?a0 = minimal_aircraft k r t"
    by simp_all
  from m have in1: "(k, ?a0) \<in> set (aircraft_database ?s1)" by (rule map_of_SomeD)
  have uniq: "a' = ?a0" if "(k, a') \<in> set (aircraft_database ?s1)" for a'
    using that wf1 m by (simp add: cache_wf_def)
  have h': "heap s' ?a0 = minimal_aircraft k r t"
    using in1 h unfolding s'_def update_fields by (force simp: minimal_aircraft_def)
  show "heap s' a = minimal_aircraft k r t" if "(k, a) \<in> set (aircraft_database s')"
  proof -
    from that have "(k, a) \<in> set (aircraft_database ?s1)" by (simp add: s'_def update_fields)
    then have "a = ?a0" by (rule uniq)
    with h' show ?thesis by simp
  qed
  show "k \<in> fst ` set (aircraft_database s')" if "0 \<le> persistence_time s"
  proof -
    have p: "persistence_time ?s1 = persistence_time s"
      using upsert_loop_frame [of "xs @ r # ys" t s] by simp
    have "\<not> expired_in t ?s1 (k, a')" if "(k, a') \<in> set (aircraft_database ?s1)" for a'
      using uniq [OF that] h p \<open>0 \<le> persistence_time s\<close>
      by (simp add: expired_in_def minimal_aircraft_def)
    then have "k \<notin> fst ` {e \<in> set (aircraft_database ?s1). expired_in t ?s1 e}" by force
    with in1 have "(k, ?a0) \<in> set (aircraft_database s')" by (simp add: s'_def update_fields)
    then show ?thesis by force
  qed
qed


lemma upsert_loop_keeps:
  assumes wf: "cache_wf s" and "(k, a) \<in> set (aircraft_database s)"
    and "\<forall>r \<in> set xs. cache_id r \<noteq> Some k"
  shows "(k, a) \<in> set (aircraft_database (upsert_loop xs t s)) \<and> heap (upsert_loop xs t s) a = heap s a"
proof -
  from wf assms(2) have "map_of (aircraft_database s) k = Some a" and lt: "a < next_address s"
    by (auto simp: cache_wf_def)
  with assms(3) have "map_of (aircraft_database (upsert_loop xs t s)) k = Some a"
    by (simp add: upsert_loop_other_key)
  then have "(k, a) \<in> set (aircraft_database (upsert_loop xs t s))" by (rule map_of_SomeD)
  moreover have "heap (upsert_loop xs t s) a = heap s a"
    using upsert_loop_frame [of xs t s] lt by simp
  ultimately show ?thesis by simp
qed

lemma minimal_aircraft_fields:
  "minimal_aircraft k r t =
     \<lparr>entry_adshex = k,
      entry_lat = (case lat r of Val v \<Rightarrow> Some v | _ \<Rightarrow> None),
      entry_lon = (case lon r of Val v \<Rightarrow> Some v | _ \<Rightarrow> None),
      entry_altitude =
        (case altitude r of Absent \<Rightarrow> Some (Feet 0) | Null \<Rightarrow> None | Val v \<Rightarrow> Some v),
      entry_vert_rate =
        (case vert_rate r of Absent \<Rightarrow> Some 0 | Null \<Rightarrow> None | Val v \<Rightarrow> Some v),
      entry_heading = (case heading r of Val v \<Rightarrow> Some v | _ \<Rightarrow> None),
      entry_speed = (case speed r of Val v \<Rightarrow> Some v | _ \<Rightarrow> None),
      last_seen_timestamp = t,
      age_seconds = 0\<rparr>"
proof -
  have g: "dict_get f = (case f of Val v \<Rightarrow> Some v | _ \<Rightarrow> None)" for f :: "'a field"
    by (cases f) simp_all
  have d: "dict_get_default f x = (case f of Absent \<Rightarrow> Some x | Null \<Rightarrow> None | Val v \<Rightarrow> Some v)"
    for f :: "'a field" and x
    by (cases f) simp_all
  show ?thesis unfolding minimal_aircraft_def g d ..
qed

text \<open>
  C7 (cache eviction). After \<open>update_aircraft_data accepted now\<close> on a well-formed
  cache: the cache is well formed again, so no id has two entries; every entry left in
  the database carries the age \<open>now - last_seen\<close>, and that age does not exceed the
  persistence time; an entry that the update does not refresh and whose age at \<open>now\<close>
  exceeds the persistence time is gone; and for an id \<open>k\<close> whose last record in the
  accepted list is \<open>r\<close>, the fields of the entry of \<open>k\<close> are those of \<open>r\<close>: the id
  \<open>k\<close>; latitude, longitude, heading and speed as in \<open>r\<close>, or none where \<open>r\<close> has
  none; altitude and vertical rate as in \<open>r\<close>, 0 where the key is absent and none
  where it is null; last-seen time \<open>now\<close> and age 0. That entry is present when the
  persistence time is not negative.
\<close>

theorem cache_eviction:
  fixes accepted :: "aircraft list" and now :: real and self :: kmz_generator
  assumes wf: "cache_wf self"
  defines "self' \<equiv> update_aircraft_data accepted now self"
  defines "window \<equiv> real_of_int (persistence_time self)"
  shows "cache_wf self' \<and>
    ((k, a) \<in> set (aircraft_database self') \<longrightarrow>
        age_seconds (heap self' a) = now - last_seen_timestamp (heap self' a) \<and>
        age_seconds (heap self' a) \<le> window) \<and>
    ((k, a) \<in> set (aircraft_database self) \<and>
     (\<forall>r \<in> set accepted. cache_id r \<noteq> Some k) \<and>
     now - last_seen_timestamp (heap self a) > window \<longrightarrow>
        k \<notin> fst ` set (aircraft_database self')) \<and>
    (accepted = xs @ r # ys \<and> cache_id r = Some k \<and> (\<forall>r' \<in> set ys. cache_id r' \<noteq> Some k) \<longrightarrow>
        ((k, a) \<in> set (aircraft_database self') \<longrightarrow>
           heap self' a =
             \<lparr>entry_adshex = k,
              entry_lat = (case lat r of Val v \<Rightarrow> Some v | _ \<Rightarrow> None),
              entry_lon = (case lon r of Val v \<Rightarrow> Some v | _ \<Rightarrow> None),
              entry_altitude =
                (case altitude r of Absent \<Rightarrow> Some (Feet 0) | Null \<Rightarrow> None | Val v \<Rightarrow> Some v),
              entry_vert_rate =
                (case vert_rate r of Absent \<Rightarrow> Some 0 | Null \<Rightarrow> None | Val v \<Rightarrow> Some v),
              entry_heading = (case heading r of Val v \<Rightarrow> Some v | _ \<Rightarrow> None),
              entry_speed = (case speed r of Val v \<Rightarrow> Some v | _ \<Rightarrow> None),
              last_seen_timestamp = now,
              age_seconds = 0\<rparr>) \<and>
        (0 \<le> persistence_time self \<longrightarrow> k \<in> fst ` set (aircraft_database self')))"
proof (intro conjI)
  show "cache_wf self'" unfolding self'_def using wf by (rule update_wf)
next
  show "(k, a) \<in> set (aircraft_database self') \<longrightarrow>
          age_seconds (heap self' a) = now - last_seen_timestamp (heap self' a) \<and>
          age_seconds (heap self' a) \<le> window"
    unfolding self'_def window_def using update_remaining by blast
next
  show "(k, a) \<in> set (aircraft_database self) \<and>
        (\<forall>r \<in> set accepted. cache_id r \<noteq> Some k) \<and>
        now - last_seen_timestamp (heap self a) > window \<longrightarrow>
          k \<notin> fst ` set (aircraft_database self')"
    unfolding self'_def window_def using update_evicts [OF wf] by blast
next
  have "accepted = xs @ r # ys \<and> cache_id r = Some k \<and> (\<forall>r' \<in> set ys. cache_id r' \<noteq> Some k) \<longrightarrow>
        ((k, a) \<in> set (aircraft_database self') \<longrightarrow> heap self' a = minimal_aircraft k r now) \<and>
        (0 \<le> persistence_time self \<longrightarrow> k \<in> fst ` set (aircraft_database self'))"
    unfolding self'_def using update_refreshed [OF wf] by blast
  then show "accepted = xs @ r # ys \<and> cache_id r = Some k \<and>
        (\<forall>r' \<in> set ys. cache_id r' \<noteq> Some k) \<longrightarrow>
        ((k, a) \<in> set (aircraft_database self') \<longrightarrow>
           heap self' a =
             \<lparr>entry_adshex = k,
              entry_lat = (case lat r of Val v \<Rightarrow> Some v | _ \<Rightarrow> None),
              entry_lon = (case lon r of Val v \<Rightarrow> Some v | _ \<Rightarrow> None),
              entry_altitude =
                (case altitude r of Absent \<Rightarrow> Some (Feet 0) | Null \<Rightarrow> None | Val v \<Rightarrow> Some v),
              entry_vert_rate =
                (case vert_rate r of Absent \<Rightarrow> Some 0 | Null \<Rightarrow> None | Val v \<Rightarrow> Some v),
              entry_heading = (case heading r of Val v \<Rightarrow> Some v | _ \<Rightarrow> None),
              entry_speed = (case speed r of Val v \<Rightarrow> Some v | _ \<Rightarrow> None),
              last_seen_timestamp = now,
              age_seconds = 0\<rparr>) \<and>
        (0 \<le> persistence_time self \<longrightarrow> k \<in> fst ` set (aircraft_database self'))"
    by (simp only: minimal_aircraft_fields)
qed

lemma ex_gen1_database: "aircraft_database ex_gen1 = [(''AC1'', 0)]"
  by (simp add: ex_gen1_def update_aircraft_data_def init_kmz_generator_def ex_ac1_def
      store_entry_def minimal_aircraft_def Let_def)

lemma ex_gen1_heap: "heap ex_gen1 0 = minimal_aircraft ''AC1'' ex_ac1 1000"
  by (simp add: ex_gen1_def update_aircraft_data_def init_kmz_generator_def ex_ac1_def
      store_entry_def minimal_aircraft_def Let_def)

lemma ex_gen1_fields: "persistence_time ex_gen1 = 15" "next_address ex_gen1 = 1"
  by (simp_all add: ex_gen1_def update_aircraft_data_def init_kmz_generator_def ex_ac1_def
      store_entry_def minimal_aircraft_def Let_def)

theorem cache_eviction_witness:
  "cache_wf (init_kmz_generator 1 15) \<and> cache_wf ex_gen1 \<and>
   aircraft_database ex_gen1 = [(''AC1'', 0)] \<and>
   heap ex_gen1 0 =
     \<lparr>entry_adshex = ''AC1'', entry_lat = Some 51.5, entry_lon = Some (- 0.1),
      entry_altitude = Some (Feet 5000), entry_vert_rate = Some 0, entry_heading = None,
      entry_speed = None, last_seen_timestamp = 1000, age_seconds = 0\<rparr> \<and>
   age_seconds (heap ex_gen1 0) \<le> 15 \<and>
   ''AC1'' \<notin> fst ` set (aircraft_database (update_aircraft_data [] 1016 ex_gen1))"
proof -
  have wf0: "cache_wf (init_kmz_generator 1 15)"
    by (simp add: cache_wf_def init_kmz_generator_def)
  have id1: "cache_id ex_ac1 = Some ''AC1''" by (simp add: cache_id_def ex_ac1_def)
  have p0: "persistence_time (init_kmz_generator 1 15) = 15" by (simp add: init_kmz_generator_def)
  note t0 = cache_eviction [OF wf0, where accepted = "[ex_ac1]" and now = 1000 and k = "''AC1''"
      and a = 0 and xs = "[]" and r = ex_ac1 and ys = "[]", folded ex_gen1_def]
  from t0 have wf1: "cache_wf ex_gen1" by simp
  from t0 id1 have h: "heap ex_gen1 0 =
     \<lparr>entry_adshex = ''AC1'', entry_lat = Some 51.5, entry_lon = Some (- 0.1),
      entry_altitude = Some (Feet 5000), entry_vert_rate = Some 0, entry_heading = None,
      entry_speed = None, last_seen_timestamp = 1000, age_seconds = 0\<rparr>"
    by (simp add: ex_gen1_database ex_ac1_def)
  from t0 have age: "age_seconds (heap ex_gen1 0) = 1000 - last_seen_timestamp (heap ex_gen1 0)"
    "age_seconds (heap ex_gen1 0) \<le> 15"
    by (simp_all add: ex_gen1_database p0)
  from cache_eviction [OF wf1, where accepted = "[]" and now = 1016 and k = "''AC1''" and a = 0]
  have "''AC1'' \<notin> fst ` set (aircraft_database (update_aircraft_data [] 1016 ex_gen1))"
    by (simp add: ex_gen1_database h ex_gen1_fields)
  with wf0 wf1 h age show ?thesis
    by (simp add: ex_gen1_database)
qed

text \<open>
  C10. A record whose \<^verbatim>\<open>adshex\<close> is absent, null or the empty string is skipped by the
  cache update: the upsert loop leaves the cache as it is, an update returns the same
  cache with and without the record in its list, and the ids in the database after an
  update are ids that were there before or non-empty ids of the other records. The
  witness is a record that passes the filter and leaves the snapshot empty.
\<close>

theorem falsy_id_skipped:
  assumes "adshex r = Absent \<or> adshex r = Null \<or> adshex r = Val []"
  shows "upsert_loop [r] now self = self \<and>
         update_aircraft_data (xs @ r # ys) now self = update_aircraft_data (xs @ ys) now self \<and>
         fst ` set (aircraft_database (update_aircraft_data (xs @ r # ys) now self))
           \<subseteq> fst ` set (aircraft_database self)
               \<union> {k. k \<noteq> [] \<and> (\<exists>r' \<in> set (xs @ ys). adshex r' = Val k)}"
proof -
  from assms have none: "cache_id r = None" by (auto simp: cache_id_def)
  then have one: "upsert_loop [r] now self = self" by (simp add: upsert_loop_Cons del: upsert_loop.simps(2))
  have "upsert_loop (xs @ r # ys) now self = upsert_loop (xs @ ys) now self"
    using none by (simp add: upsert_loop_append upsert_loop_Cons del: upsert_loop.simps(2))
  then have eq: "update_aircraft_data (xs @ r # ys) now self = update_aircraft_data (xs @ ys) now self"
    by (simp add: update_aircraft_data_def)
  have ids: "k \<noteq> [] \<and> adshex r' = Val k" if "cache_id r' = Some k" for r' k
    using that by (cases "adshex r'") (auto simp: cache_id_def split: if_splits)
  have "fst ` set (aircraft_database (update_aircraft_data (xs @ ys) now self))
          \<subseteq> fst ` set (aircraft_database (upsert_loop (xs @ ys) now self))"
    by (auto simp: update_fields)
  also have "\<dots> \<subseteq> fst ` set (aircraft_database self)
               \<union> {k. k \<noteq> [] \<and> (\<exists>r' \<in> set (xs @ ys). adshex r' = Val k)}"
    unfolding upsert_loop_keys using ids by blast
  finally show ?thesis using one eq by simp
qed

theorem falsy_id_skipped_witness:
  "accepted_by default_filters (ex_ac1\<lparr>adshex := Absent\<rparr>) \<and>
   upsert_loop [ex_ac1\<lparr>adshex := Absent\<rparr>] 1000 (init_kmz_generator 1 15) = init_kmz_generator 1 15 \<and>
   get_current_aircraft (update_aircraft_data [ex_ac1\<lparr>adshex := Absent\<rparr>] 1000
                          (init_kmz_generator 1 15)) = []"
proof -
  have a: "accepted_by default_filters (ex_ac1\<lparr>adshex := Absent\<rparr>)"
    by (simp add: accepted_by_def first_failing_check_def ex_ac1_def default_filters_def)
  have e: "get_current_aircraft (update_aircraft_data [] 1000 (init_kmz_generator 1 15)) = []"
    by (simp add: get_current_aircraft_def update_aircraft_data_def init_kmz_generator_def)
  from falsy_id_skipped [of "ex_ac1\<lparr>adshex := Absent\<rparr>" 1000 "init_kmz_generator 1 15" "[]" "[]"] a e
  show ?thesis by simp
qed

text \<open>
  C2, as stated, on the cache updated once at time 1000 with the record AC1. The list
  returned by \<open>get_current_aircraft\<close> does not depend on when it is called: its entry
  carries age 0, the age written by the sweep at time 1000, while at time 1005 the
  age \<open>t - last_seen\<close> would be 5. And the same returned list, read after a later
  update at time 1005 with no records, shows age 5: the later sweep has written into
  the object that the list shares with the cache.
\<close>

theorem snapshot_age_counterexample:
  "read_entries ex_gen1 (get_current_aircraft ex_gen1) = [minimal_aircraft ''AC1'' ex_ac1 1000] \<and>
   age_seconds (minimal_aircraft ''AC1'' ex_ac1 1000) = 0 \<and>
   1005 - last_seen_timestamp (minimal_aircraft ''AC1'' ex_ac1 1000) = 5 \<and>
   read_entries (update_aircraft_data [] 1005 ex_gen1) (get_current_aircraft ex_gen1)
     = [(minimal_aircraft ''AC1'' ex_ac1 1000)\<lparr>age_seconds := 5\<rparr>]"
  by (simp add: read_entries_def get_current_aircraft_def ex_gen1_database ex_gen1_heap
      update_aircraft_data_def minimal_aircraft_def Let_def)

text \<open>
  Any number of later updates, each with its records and its clock reading, applied in
  order.
\<close>

fun run_updates :: "(aircraft list \<times> real) list \<Rightarrow> kmz_generator \<Rightarrow> kmz_generator" where
  "run_updates [] self = self"
| "run_updates ((aircraft_list, current_time) # rest) self =
     run_updates rest (update_aircraft_data aircraft_list current_time self)"

lemma update_next: "next_address s \<le> next_address (update_aircraft_data ys t s)"
  using upsert_loop_frame [of ys t s] by (simp add: update_fields)

lemma update_frame:
  assumes "a < next_address s"
  shows "\<exists>y. heap (update_aircraft_data ys t s) a = (heap s a)\<lparr>age_seconds := y\<rparr>"
proof -
  from assms have h: "heap (upsert_loop ys t s) a = heap s a"
    using upsert_loop_frame [of ys t s] by simp
  show ?thesis
  proof (cases "a \<in> snd ` set (aircraft_database (upsert_loop ys t s))")
    case True
    with h have "heap (update_aircraft_data ys t s) a
                   = (heap s a)\<lparr>age_seconds := t - last_seen_timestamp (heap s a)\<rparr>"
      by (simp add: update_fields)
    then show ?thesis ..
  next
    case False
    with h have "heap (update_aircraft_data ys t s) a
                   = (heap s a)\<lparr>age_seconds := age_seconds (heap s a)\<rparr>"
      by (simp add: update_fields)
    then show ?thesis ..
  qed
qed

lemma run_updates_wf: "cache_wf s \<Longrightarrow> cache_wf (run_updates us s)"
proof (induction us arbitrary: s)
  case Nil
  then show ?case by simp
next
  case (Cons u us)
  obtain ys t where u: "u = (ys, t)" by (cases u)
  from Cons.prems have "cache_wf (update_aircraft_data ys t s)" by (rule update_wf)
  from Cons.IH [OF this] show ?case by (simp add: u)
qed

lemma run_updates_frame:
  "a < next_address s \<Longrightarrow>
   a < next_address (run_updates us s) \<and>
   (\<exists>y. heap (run_updates us s) a = (heap s a)\<lparr>age_seconds := y\<rparr>)"
proof (induction us arbitrary: s)
  case Nil
  have "heap (run_updates [] s) a = (heap s a)\<lparr>age_seconds := age_seconds (heap s a)\<rparr>"
    by simp
  then have "\<exists>y. heap (run_updates [] s) a = (heap s a)\<lparr>age_seconds := y\<rparr>" ..
  with Nil show ?case by simp
next
  case (Cons u us)
  obtain ys t where u: "u = (ys, t)" by (cases u)
  let ?s = "update_aircraft_data ys t s"
  from Cons.prems update_next [of s ys t] have lt: "a < next_address ?s" by simp
  from Cons.IH [OF lt] obtain y where n: "a < next_address (run_updates us ?s)"
    and h: "heap (run_updates us ?s) a = (heap ?s a)\<lparr>age_seconds := y\<rparr>"
    by blast
  from update_frame [OF Cons.prems, of ys t] obtain z
    where "heap ?s a = (heap s a)\<lparr>age_seconds := z\<rparr>" by blast
  with h have "heap (run_updates us ?s) a = (heap s a)\<lparr>age_seconds := y\<rparr>" by simp
  with n show ?case by (auto simp: u)
qed

lemma set_update_cases:
  assumes "distinct (map fst al)" and "(k, a) \<in> set (AList.update k' v al)"
  shows "(k = k' \<and> a = v) \<or> ((k, a) \<in> set al \<and> k \<noteq> k')"
  using assms
proof (induction al)
  case Nil
  then show ?case by simp
next
  case (Cons p al)
  obtain x y where p: "p = (x, y)" by (cases p)
  show ?case
  proof (cases "x = k'")
    case True
    with Cons.prems p show ?thesis by (auto simp: image_iff)
  next
    case False
    with Cons p show ?thesis by auto
  qed
qed

lemma store_entry_wf:
  assumes "cache_wf s"
  shows "cache_wf (store_entry k e s)"
proof -
  have "set (AList.update k v al) \<subseteq> insert (k, v) (set al)" for v :: nat and al
    by (induction al) auto
  then have "snd ` set (AList.update k v al) \<subseteq> insert v (snd ` set al)" for v :: nat and al
    by force
  with assms show ?thesis
    by (fastforce simp: cache_wf_def store_entry_fields distinct_update)
qed

lemma upsert_loop_old_entries:
  assumes "cache_wf s" and "(k, a) \<in> set (aircraft_database (upsert_loop xs t s))"
    and "a < next_address s"
  shows "(k, a) \<in> set (aircraft_database s) \<and> (\<forall>r \<in> set xs. cache_id r \<noteq> Some k)"
  using assms
proof (induction xs arbitrary: s)
  case Nil
  then show ?case by simp
next
  case (Cons r xs)
  show ?case
  proof (cases "cache_id r")
    case None
    with Cons.prems Cons.IH [of s] show ?thesis
      by (simp add: upsert_loop_Cons del: upsert_loop.simps(2))
  next
    case (Some k')
    let ?s = "store_entry k' (minimal_aircraft k' r t) s"
    from Cons.prems(1) have wf: "cache_wf ?s" by (rule store_entry_wf)
    from Cons.prems(2) Some have m: "(k, a) \<in> set (aircraft_database (upsert_loop xs t ?s))"
      by (simp add: upsert_loop_Cons del: upsert_loop.simps(2))
    from Cons.prems(3) have lt: "a < next_address ?s" by (simp add: store_entry_fields)
    from Cons.IH [OF wf m lt]
    have in': "(k, a) \<in> set (AList.update k' (next_address s) (aircraft_database s))"
      and rest: "\<forall>r \<in> set xs. cache_id r \<noteq> Some k"
      by (simp_all add: store_entry_fields)
    from Cons.prems(1) have "distinct (map fst (aircraft_database s))" by (simp add: cache_wf_def)
    from set_update_cases [OF this in'] Cons.prems(3)
    have "(k, a) \<in> set (aircraft_database s)" and "k \<noteq> k'" by auto
    with rest Some show ?thesis by auto
  qed
qed

lemma update_overwrites_age:
  assumes "cache_wf s" and "(k, a) \<in> set (aircraft_database s)"
    and "\<forall>r \<in> set ys. cache_id r \<noteq> Some k"
  shows "age_seconds (heap (update_aircraft_data ys t s) a) = t - last_seen_timestamp (heap s a)"
proof -
  from upsert_loop_keeps [OF assms, of t]
  have "(k, a) \<in> set (aircraft_database (upsert_loop ys t s))"
    and h: "heap (upsert_loop ys t s) a = heap s a" by simp_all
  then have "a \<in> snd ` set (aircraft_database (upsert_loop ys t s))" by force
  with h show ?thesis by (simp add: update_fields)
qed

lemma update_keeps_age:
  assumes "cache_wf s" and "a < next_address s"
    and "\<forall>k. (k, a) \<in> set (aircraft_database s) \<longrightarrow> (\<exists>r \<in> set ys. cache_id r = Some k)"
  shows "heap (update_aircraft_data ys t s) a = heap s a"
proof -
  have "a \<notin> snd ` set (aircraft_database (upsert_loop ys t s))"
  proof
    assume "a \<in> snd ` set (aircraft_database (upsert_loop ys t s))"
    then obtain k where "(k, a) \<in> set (aircraft_database (upsert_loop ys t s))" by force
    from upsert_loop_old_entries [OF assms(1) this assms(2)] assms(3) show False by blast
  qed
  moreover have "heap (upsert_loop ys t s) a = heap s a"
    using upsert_loop_frame [of ys t s] assms(2) by simp
  ultimately show ?thesis by (simp add: update_fields)
qed

text \<open>
  C2, amended. \<open>get_current_aircraft\<close> returns a new list of all entries in the
  database, in the order of the database. After an update at time \<open>now\<close> every entry of
  the list carries the age \<open>now - last_seen\<close> that this update's sweep stored, whenever
  the list is taken. The entries are the objects of the cache: after any number of
  later updates a returned entry has all its fields as they were, except its age. A
  further update at time \<open>later\<close> overwrites the age of a returned entry with
  \<open>later - last_seen\<close> if the entry is in the database when that update starts, under
  an id that the update does not refresh; otherwise (the entry has been replaced or
  evicted before, or this update replaces it) the update leaves its age as it is.
\<close>

theorem snapshot_carries_last_sweep_age:
  fixes xs ys :: "aircraft list" and now later :: real
    and us :: "(aircraft list \<times> real) list"
  assumes wf: "cache_wf self"
  defines "s1 \<equiv> update_aircraft_data xs now self"
  defines "snapshot \<equiv> get_current_aircraft s1"
  defines "s \<equiv> run_updates us s1"
  defines "s2 \<equiv> update_aircraft_data ys later s"
  shows "snapshot = map snd (aircraft_database s1) \<and>
         (a \<in> set snapshot \<longrightarrow>
            age_seconds (heap s1 a) = now - last_seen_timestamp (heap s1 a) \<and>
            heap s a = (heap s1 a)\<lparr>age_seconds := age_seconds (heap s a)\<rparr> \<and>
            heap s2 a = (heap s1 a)\<lparr>age_seconds := age_seconds (heap s2 a)\<rparr> \<and>
            ((k, a) \<in> set (aircraft_database s) \<and> (\<forall>r \<in> set ys. cache_id r \<noteq> Some k) \<longrightarrow>
               age_seconds (heap s2 a) = later - last_seen_timestamp (heap s1 a)) \<and>
            ((\<forall>k'. (k', a) \<in> set (aircraft_database s) \<longrightarrow> (\<exists>r \<in> set ys. cache_id r = Some k')) \<longrightarrow>
               age_seconds (heap s2 a) = age_seconds (heap s a)))"
proof (intro conjI impI)
  show "snapshot = map snd (aircraft_database s1)"
    by (simp add: snapshot_def get_current_aircraft_def)
next
  assume "a \<in> set snapshot"
  then obtain k0 where "(k0, a) \<in> set (aircraft_database s1)"
    by (auto simp: snapshot_def get_current_aircraft_def)
  then show "age_seconds (heap s1 a) = now - last_seen_timestamp (heap s1 a)"
    unfolding s1_def using update_remaining by blast
next
  assume "a \<in> set snapshot"
  moreover have "cache_wf s1" unfolding s1_def using wf by (rule update_wf)
  ultimately have "a < next_address s1"
    by (auto simp: snapshot_def get_current_aircraft_def cache_wf_def)
  from run_updates_frame [OF this, of us] obtain y
    where "heap s a = (heap s1 a)\<lparr>age_seconds := y\<rparr>" by (auto simp: s_def)
  then show "heap s a = (heap s1 a)\<lparr>age_seconds := age_seconds (heap s a)\<rparr>"
    by simp
next
  assume "a \<in> set snapshot"
  moreover have "cache_wf s1" unfolding s1_def using wf by (rule update_wf)
  ultimately have "a < next_address s1"
    by (auto simp: snapshot_def get_current_aircraft_def cache_wf_def)
  from run_updates_frame [OF this, of "us @ [(ys, later)]"] obtain y
    where "heap (run_updates (us @ [(ys, later)]) s1) a = (heap s1 a)\<lparr>age_seconds := y\<rparr>"
    by blast
  moreover have "run_updates (us @ vs) z = run_updates vs (run_updates us z)" for vs z
    by (induction us arbitrary: z) auto
  ultimately have "heap s2 a = (heap s1 a)\<lparr>age_seconds := y\<rparr>"
    by (simp add: s2_def s_def)
  then show "heap s2 a = (heap s1 a)\<lparr>age_seconds := age_seconds (heap s2 a)\<rparr>"
    by simp
next
  assume "a \<in> set snapshot"
    and "(k, a) \<in> set (aircraft_database s) \<and> (\<forall>r \<in> set ys. cache_id r \<noteq> Some k)"
  moreover have wf1: "cache_wf s1" unfolding s1_def using wf by (rule update_wf)
  moreover have wfs: "cache_wf s" unfolding s_def using wf1 by (rule run_updates_wf)
  ultimately have "age_seconds (heap s2 a) = later - last_seen_timestamp (heap s a)"
    unfolding s2_def using update_overwrites_age by blast
  moreover from \<open>a \<in> set snapshot\<close> wf1 have "a < next_address s1"
    by (auto simp: snapshot_def get_current_aircraft_def cache_wf_def)
  from run_updates_frame [OF this, of us] obtain y
    where "heap s a = (heap s1 a)\<lparr>age_seconds := y\<rparr>" by (auto simp: s_def)
  then have "last_seen_timestamp (heap s a) = last_seen_timestamp (heap s1 a)" by simp
  ultimately show "age_seconds (heap s2 a) = later - last_seen_timestamp (heap s1 a)" by simp
next
  assume "a \<in> set snapshot"
    and all: "\<forall>k'. (k', a) \<in> set (aircraft_database s) \<longrightarrow> (\<exists>r \<in> set ys. cache_id r = Some k')"
  have wf1: "cache_wf s1" unfolding s1_def using wf by (rule update_wf)
  have wfs: "cache_wf s" unfolding s_def using wf1 by (rule run_updates_wf)
  from \<open>a \<in> set snapshot\<close> wf1 have "a < next_address s1"
    by (auto simp: snapshot_def get_current_aircraft_def cache_wf_def)
  from run_updates_frame [OF this, of us] have "a < next_address s" by (simp add: s_def)
  from update_keeps_age [OF wfs this all]
  show "age_seconds (heap s2 a) = age_seconds (heap s a)" by (simp add: s2_def)
qed

text \<open>
  The example cache after a second update at time 1005 that refreshes AC1: the
  database now holds a new object for AC1, at address 1.
\<close>

lemma ex_refreshed:
  "aircraft_database (update_aircraft_data [ex_ac1] 1005 ex_gen1) = [(''AC1'', 1)]"
  "heap (update_aircraft_data [ex_ac1] 1005 ex_gen1) 0 = heap ex_gen1 0"
  by (simp_all add: update_aircraft_data_def ex_gen1_database ex_gen1_heap ex_gen1_fields
      ex_ac1_def store_entry_def minimal_aircraft_def Let_def)

theorem snapshot_carries_last_sweep_age_witness:
  "cache_wf (init_kmz_generator 1 15) \<and>
   get_current_aircraft ex_gen1 = [0] \<and>
   age_seconds (heap ex_gen1 0) = 1000 - last_seen_timestamp (heap ex_gen1 0) \<and>
   heap (update_aircraft_data [] 1005 ex_gen1) 0
     = (heap ex_gen1 0)\<lparr>age_seconds := age_seconds (heap (update_aircraft_data [] 1005 ex_gen1) 0)\<rparr> \<and>
   age_seconds (heap (update_aircraft_data [] 1005 ex_gen1) 0)
     = 1005 - last_seen_timestamp (heap ex_gen1 0) \<and>
   age_seconds (heap (update_aircraft_data [] 1010
                        (update_aircraft_data [ex_ac1] 1005 ex_gen1)) 0)
     = age_seconds (heap ex_gen1 0)"
proof -
  have wf0: "cache_wf (init_kmz_generator 1 15)"
    by (simp add: cache_wf_def init_kmz_generator_def)
  note first = snapshot_carries_last_sweep_age [OF wf0, where xs = "[ex_ac1]" and now = 1000
      and us = "[]" and ys = "[]" and later = 1005 and k = "''AC1''" and a = 0,
      folded ex_gen1_def]
  note second = snapshot_carries_last_sweep_age [OF wf0, where xs = "[ex_ac1]" and now = 1000
      and us = "[([ex_ac1], 1005)]" and ys = "[]" and later = 1010 and k = "''AC1''" and a = 0,
      folded ex_gen1_def]
  from first have a: "get_current_aircraft ex_gen1 = [0]"
    and b: "age_seconds (heap ex_gen1 0) = 1000 - last_seen_timestamp (heap ex_gen1 0)"
    and c: "heap (update_aircraft_data [] 1005 ex_gen1) 0
       = (heap ex_gen1 0)\<lparr>age_seconds := age_seconds (heap (update_aircraft_data [] 1005 ex_gen1) 0)\<rparr>"
    and d: "age_seconds (heap (update_aircraft_data [] 1005 ex_gen1) 0)
       = 1005 - last_seen_timestamp (heap ex_gen1 0)"
    by (auto simp: ex_gen1_database)
  from second have e: "age_seconds (heap (update_aircraft_data [] 1010
                        (update_aircraft_data [ex_ac1] 1005 ex_gen1)) 0)
     = age_seconds (heap ex_gen1 0)"
    by (auto simp: ex_gen1_database ex_refreshed)
  from wf0 a b c d e show ?thesis by blast
qed

section \<open>Decoding the frames of a read (firehose\_client.py, \_process\_buffer)\<close>

text \<open>
  \<^verbatim>\<open>gzip.decompress\<close>, \<^verbatim>\<open>json.loads\<close> (with the \<^verbatim>\<open>decode()\<close> before it) and
  \<^verbatim>\<open>round\<close> belong to the Python library, not to the repository. They are parameters:
  any functions that return a value or raise.
\<close>

record pylib =
  lib_gzip_decompress :: "byte list \<Rightarrow> exn + byte list"
  lib_json_loads :: "byte list \<Rightarrow> exn + payload"
  lib_round :: "real \<Rightarrow> real"

text \<open>
  The fields of the client that \<^verbatim>\<open>_process_buffer\<close> uses. The data processor is
  optional (\<^verbatim>\<open>data_processor=None\<close>).
\<close>

record 'w firehose_client =
  buffer :: "byte list"
  data_processor :: "'w data_processor option"

type_synonym 'w session = "'w firehose_client \<times> 'w env"

definition print_session :: "string \<Rightarrow> (unit, 'w session) prog" where
  "print_session line = (\<lambda>(self, env). case print line env of (r, env') \<Rightarrow> (r, (self, env')))"

text \<open>
  \<^verbatim>\<open>if aircraft_data and aircraft_data != {} and self.data_processor:
  self.data_processor.process_aircraft_data(aircraft_data)\<close>. An exception of the
  processor goes on to the caller; what the processor wrote before stays written.
\<close>

definition hand_to_processor :: "pylib \<Rightarrow> payload \<Rightarrow> (unit, 'w session) prog" where
  "hand_to_processor lib aircraft_data = (\<lambda>(self, env).
     if truthy aircraft_data \<and> aircraft_data \<noteq> Mapping [] then
       (case data_processor self of
          None \<Rightarrow> (Inr (), (self, env))
        | Some dp \<Rightarrow>
            (case process_aircraft_data (lib_round lib) aircraft_data (dp, env) of
               (Inl e, (dp', env')) \<Rightarrow> (Inl e, (self\<lparr>data_processor := Some dp'\<rparr>, env'))
             | (Inr accepted, (dp', env')) \<Rightarrow>
                 (Inr (), (self\<lparr>data_processor := Some dp'\<rparr>, env'))))
     else (Inr (), (self, env)))"

text \<open>
  The body of \<^verbatim>\<open>for frame in frames\<close>: the outer \<^verbatim>\<open>try\<close> prints any exception, the
  inner one, around the gzip branch, passes.
\<close>

definition is_gzip :: "byte list \<Rightarrow> bool" where
  "is_gzip frame \<longleftrightarrow> length frame \<ge> 2 \<and> frame ! 0 = 0x1f \<and> frame ! 1 = 0x8b"

definition process_frame :: "pylib \<Rightarrow> byte list \<Rightarrow> (unit, 'w session) prog" where
  "process_frame lib frame =
     try_except
       (if is_gzip frame then
          try_except
            (bind_exn (lift (lib_gzip_decompress lib frame)) (\<lambda>decompressed.
             bind_exn (lift (lib_json_loads lib decompressed)) (\<lambda>aircraft_data.
             hand_to_processor lib aircraft_data)))
            (\<lambda>e. lift (Inr ()))
        else
          bind_exn (lift (lib_json_loads lib frame)) (\<lambda>aircraft_data.
          hand_to_processor lib aircraft_data))
       (\<lambda>e. print_session (''Frame processing error: '' @ str e))"

text \<open>
  \<^verbatim>\<open>_process_buffer\<close>, and the two statements of the read loop that call it:
  \<^verbatim>\<open>self.buffer.extend(data); self._process_buffer()\<close>.
\<close>

definition process_buffer :: "pylib \<Rightarrow> (unit, 'w session) prog" where
  "process_buffer lib = (\<lambda>(self, env).
     case extract_frames (buffer self) of
       (frames, remaining) \<Rightarrow>
         for_each frames (process_frame lib) (self\<lparr>buffer := remaining\<rparr>, env))"

definition receive :: "pylib \<Rightarrow> byte list \<Rightarrow> (unit, 'w session) prog" where
  "receive lib data = (\<lambda>(self, env). process_buffer lib (self\<lparr>buffer := buffer self @ data\<rparr>, env))"

section \<open>Properties of the decode step\<close>

text \<open>
  A frame decodes to nothing when decompression raises, or parsing raises, or the
  parsed value is an empty mapping or another value that Python takes as false.
\<close>

definition decodes_to_nothing :: "pylib \<Rightarrow> byte list \<Rightarrow> bool" where
  "decodes_to_nothing lib frame =
     (if is_gzip frame then
        (case lib_gzip_decompress lib frame of
           Inl e \<Rightarrow> True
         | Inr decompressed \<Rightarrow>
             (case lib_json_loads lib decompressed of Inl e \<Rightarrow> True | Inr p \<Rightarrow> \<not> truthy p))
      else (case lib_json_loads lib frame of Inl e \<Rightarrow> True | Inr p \<Rightarrow> \<not> truthy p))"

lemma hand_to_processor_empty:
  "\<not> truthy p \<Longrightarrow> hand_to_processor lib p st = (Inr (), st)"
  by (cases st) (simp add: hand_to_processor_def)

lemma process_frame_returns: "fst (process_frame lib frame st) = Inr ()"
proof -
  obtain self env where st: "st = (self, env)" by (cases st)
  obtain w out where env: "env = (w, out)" by (cases env)
  have p: "fst (print_session line s) = Inr ()" for line and s :: "'a session"
    by (cases s) (auto simp: print_session_def print_def split: prod.splits)
  show ?thesis
    unfolding process_frame_def try_except_def
    by (auto simp: p lift_def split: prod.splits sum.splits)
qed

lemma for_each_process_frame_returns:
  "fst (for_each frames (process_frame lib) st) = Inr ()"
proof (induction frames arbitrary: st)
  case Nil
  show ?case by simp
next
  case (Cons frame frames)
  obtain st' where "process_frame lib frame st = (Inr (), st')"
    using process_frame_returns [of lib frame st] by (cases "process_frame lib frame st") auto
  then show ?case by (simp add: bind_exn_def Cons.IH)
qed

lemma process_frame_nothing:
  assumes "decodes_to_nothing lib frame"
  shows "\<exists>out'. process_frame lib frame (self, (w, out)) = (Inr (), (self, (w, out')))"
  using assms
  by (auto simp: decodes_to_nothing_def process_frame_def try_except_def bind_exn_def lift_def
      print_session_def print_def hand_to_processor_empty split: sum.splits if_splits)

text \<open>
  C9 (decode-error containment). The decode step of a frame never raises to its
  caller, and neither does \<^verbatim>\<open>_process_buffer\<close>. For a frame that decodes to nothing
  the step leaves the client, its data processor (statistics included) and the
  consumers' state as they were, so the processor is not called; at most a line is
  printed. The frames after it are then processed from that same state.
\<close>

theorem decode_error_containment:
  fixes self :: "'w firehose_client"
  shows "fst (process_frame lib frame st) = Inr () \<and>
         fst (process_buffer lib st) = Inr () \<and>
         (decodes_to_nothing lib frame \<longrightarrow>
            (\<exists>out'. process_frame lib frame (self, (w, out)) = (Inr (), (self, (w, out'))) \<and>
                    for_each (frame # frames) (process_frame lib) (self, (w, out))
                      = for_each frames (process_frame lib) (self, (w, out'))))"
proof (intro conjI impI)
  show "fst (process_frame lib frame st) = Inr ()" by (rule process_frame_returns)
next
  show "fst (process_buffer lib st) = Inr ()"
    by (cases st) (simp add: process_buffer_def for_each_process_frame_returns split: prod.splits)
next
  assume "decodes_to_nothing lib frame"
  from process_frame_nothing [OF this, of self w out] obtain out'
    where "process_frame lib frame (self, (w, out)) = (Inr (), (self, (w, out')))" by blast
  then show "\<exists>out'. process_frame lib frame (self, (w, out)) = (Inr (), (self, (w, out'))) \<and>
                    for_each (frame # frames) (process_frame lib) (self, (w, out))
                      = for_each frames (process_frame lib) (self, (w, out'))"
    by (simp add: bind_exn_def)
qed


text \<open>
  A library for the examples: every decompression fails, the text \<^verbatim>\<open>{}\<close> parses to the
  empty mapping, the one-byte text \<^verbatim>\<open>A\<close> to the example batch, and nothing else parses.
\<close>

definition ex_lib :: pylib where
  "ex_lib = \<lparr>lib_gzip_decompress = (\<lambda>frame. Inl (Exception ''BadGzipFile'')),
             lib_json_loads = (\<lambda>text. if text = [0x7b, 0x7d] then Inr (Mapping [])
                                       else if text = [0x41] then Inr ex_batch
                                       else Inl (Exception ''JSONDecodeError'')),
             lib_round = id\<rparr>"

definition ex_client :: "(string list) firehose_client" where
  "ex_client = \<lparr>buffer = [], data_processor = Some ex_processor\<rparr>"

theorem decode_error_containment_witness:
  "decodes_to_nothing ex_lib [0x58] \<and>
   process_frame ex_lib [0x58] (ex_client, ([], []))
     = (Inr (), (ex_client, ([], [''Frame processing error: JSONDecodeError'']))) \<and>
   for_each [[0x58], [0x41]] (process_frame ex_lib) (ex_client, ([], []))
     = for_each [[0x41]] (process_frame ex_lib)
         (ex_client, ([], [''Frame processing error: JSONDecodeError'']))"
proof -
  have d: "decodes_to_nothing ex_lib [0x58]"
    by (simp add: decodes_to_nothing_def ex_lib_def is_gzip_def)
  have p: "process_frame ex_lib [0x58] (ex_client, ([], out'))
             = (Inr (), (ex_client, ([], out' @ [''Frame processing error: JSONDecodeError''])))"
    for out'
    by (simp add: process_frame_def ex_lib_def is_gzip_def try_except_def bind_exn_def lift_def
        print_session_def print_def)
  from decode_error_containment [of ex_lib "[0x58]" "(ex_client, ([], []))" ex_client "[]" "[]" "[[0x41]]"] d
  show ?thesis by (simp add: p)
qed

end
